theory Spec2Isabelle
  imports Main "HOL-Library.AList" "HOL-Library.Char_ord" "HOL-Library.List_Lexorder"
    "HOL-Library.Multiset"
begin

section \<open>Data model\<close>

text \<open>
  Identifiers are the integer primary keys of the database tables, slots are the
  strings \<open>HH:MM\<close> produced by \<open>generate_slots\<close>, and a candidate value is a pair
  \<open>(doctor_id, slot)\<close>.  Strings are compared as Python compares them:
  lexicographically, character by character.
\<close>

type_synonym patient_id = int
type_synonym doctor_id = int
type_synonym slot = string
type_synonym val = "doctor_id \<times> slot"

text \<open>
  A Python \<open>dict\<close> keeps its keys in insertion order: an assignment to a present key
  replaces the value in place, an assignment to a new key appends it, and \<open>del\<close>
  removes the entry.  That is an association list under \<open>AList.update\<close> and
  \<open>AList.delete\<close>.
\<close>

type_synonym ('k, 'v) dict = "('k \<times> 'v) list"

datatype error = KeyError

definition dict_mem :: "('k, 'v) dict \<Rightarrow> 'k \<Rightarrow> bool" where
  "dict_mem d k = (map_of d k \<noteq> None)"

definition dict_get :: "('k, 'v) dict \<Rightarrow> 'k \<Rightarrow> 'v \<Rightarrow> 'v" where
  "dict_get d k dflt = (case map_of d k of None \<Rightarrow> dflt | Some v \<Rightarrow> v)"

definition dict_index :: "('k, 'v) dict \<Rightarrow> 'k \<Rightarrow> error + 'v" where
  "dict_index d k = (case map_of d k of None \<Rightarrow> Inl KeyError | Some v \<Rightarrow> Inr v)"

definition dict_set :: "('k, 'v) dict \<Rightarrow> 'k \<Rightarrow> 'v \<Rightarrow> ('k, 'v) dict" where
  "dict_set d k v = AList.update k v d"

definition dict_del :: "('k, 'v) dict \<Rightarrow> 'k \<Rightarrow> error + ('k, 'v) dict" where
  "dict_del d k = (if dict_mem d k then Inr (AList.delete k d) else Inl KeyError)"

record meta =
  m_emergency :: "int option"
  m_name :: string

record state =
  domains :: "(patient_id, val list) dict"
  assigned :: "(patient_id, val) dict"
  capacity_map :: "(val, int) dict"

section \<open>Domain construction\<close>

text \<open>
  The rows of the tables \<open>patients\<close> and \<open>doctors\<close>.  A column that may hold \<open>NULL\<close>
  is an option, the integer flags are integers, and a flag is set when it is not zero.
\<close>

record patient =
  p_id :: patient_id
  p_name :: string
  needs_specialist :: int
  specialty_required :: "string option"
  emergency :: int
  preferred_slots :: "string option"

record doctor =
  d_id :: doctor_id
  d_name :: string
  specialty :: "string option"
  capacity_per_slot :: int

text \<open>
  The string methods the builder uses, on characters read as the code points below 256:
  \<open>str.lower\<close> moves the upper-case letters by 32, \<open>str.strip\<close> removes the white space
  at both ends, and \<open>str.split(",")\<close> cuts at every comma.
\<close>

definition lower_char :: "char \<Rightarrow> char" where
  "lower_char c =
     (let n = (of_char c :: nat)
      in if (65 \<le> n \<and> n \<le> 90) \<or> (192 \<le> n \<and> n \<le> 214) \<or> (216 \<le> n \<and> n \<le> 222)
         then char_of (n + 32) else c)"

definition lower :: "string \<Rightarrow> string" where
  "lower s = map lower_char s"

definition is_space :: "char \<Rightarrow> bool" where
  "is_space c =
     (let n = (of_char c :: nat)
      in (9 \<le> n \<and> n \<le> 13) \<or> (28 \<le> n \<and> n \<le> 32) \<or> n = 133 \<or> n = 160)"

definition strip :: "string \<Rightarrow> string" where
  "strip s = rev (dropWhile is_space (rev (dropWhile is_space s)))"

fun split_comma :: "string \<Rightarrow> string list" where
  "split_comma [] = [[]]"
| "split_comma (c # cs) =
     (if c = CHR '','' then [] # split_comma cs
      else (case split_comma cs of [] \<Rightarrow> [[c]] | w # ws \<Rightarrow> (c # w) # ws))"

text \<open>Lines 165 to 168: the preferred slots, stored as one comma-separated string.\<close>

definition pref_list_of :: "patient \<Rightarrow> slot list" where
  "pref_list_of p =
     (case preferred_slots p of
        None \<Rightarrow> []
      | Some t \<Rightarrow> if t = [] then [] else map strip (filter (\<lambda>s. strip s \<noteq> []) (split_comma t)))"

text \<open>Lines 171 to 173: the test that makes the loop skip a doctor.\<close>

definition doctor_skipped :: "patient \<Rightarrow> doctor \<Rightarrow> bool" where
  "doctor_skipped p d =
     (case specialty_required p of
        None \<Rightarrow> False
      | Some req \<Rightarrow>
          needs_specialist p \<noteq> 0 \<and> req \<noteq> [] \<and>
          (case specialty d of None \<Rightarrow> True | Some sp \<Rightarrow> sp = [] \<or> lower sp \<noteq> lower req))"

definition allowed_values :: "patient \<Rightarrow> doctor list \<Rightarrow> slot list \<Rightarrow> val list" where
  "allowed_values p doctors slots =
     (let pref_list = pref_list_of p
      in concat (map (\<lambda>d. if doctor_skipped p d then []
                          else map (\<lambda>slot. (d_id d, slot))
                                 (filter (\<lambda>slot. \<not> (pref_list \<noteq> [] \<and> slot \<notin> set pref_list)) slots))
                   doctors))"

definition build_domains :: "patient list \<Rightarrow> doctor list \<Rightarrow> slot list \<Rightarrow> (patient_id, val list) dict" where
  "build_domains patients doctors slots =
     foldl (\<lambda>doms p. dict_set doms (p_id p) (allowed_values p doctors slots)) [] patients"

section \<open>Variable selection\<close>

definition is_emergency :: "(patient_id, meta) dict \<Rightarrow> patient_id \<Rightarrow> bool" where
  "is_emergency patient_meta v =
     (case map_of patient_meta v of
        None \<Rightarrow> False
      | Some m \<Rightarrow> (case m_emergency m of None \<Rightarrow> False | Some e \<Rightarrow> e \<noteq> 0))"

fun mrv_loop :: "(patient_id, val list) dict \<Rightarrow> patient_id list \<Rightarrow>
    (patient_id \<times> nat) option \<Rightarrow> error + (patient_id \<times> nat) option" where
  "mrv_loop doms [] best = Inr best"
| "mrv_loop doms (v # pool) best =
     (case dict_index doms v of
        Inl e \<Rightarrow> Inl e
      | Inr dvals \<Rightarrow>
          (let l = length dvals in
           mrv_loop doms pool
             (case best of
                None \<Rightarrow> Some (v, l)
              | Some (b, best_len) \<Rightarrow> if l < best_len then Some (v, l) else Some (b, best_len))))"

definition unassigned_of :: "(patient_id, val list) dict \<Rightarrow> (patient_id, val) dict \<Rightarrow> patient_id list" where
  "unassigned_of doms asg = filter (\<lambda>vid. \<not> dict_mem asg vid) (map fst doms)"

definition pool_of :: "(patient_id, val list) dict \<Rightarrow> (patient_id, val) dict \<Rightarrow>
    (patient_id, meta) dict \<Rightarrow> patient_id list" where
  "pool_of doms asg patient_meta =
     (let unassigned = unassigned_of doms asg;
          emergencies = filter (is_emergency patient_meta) unassigned
      in if emergencies \<noteq> [] then emergencies else unassigned)"

definition select_unassigned_var :: "(patient_id, val list) dict \<Rightarrow> (patient_id, val) dict \<Rightarrow>
    (patient_id, meta) dict \<Rightarrow> error + patient_id option" where
  "select_unassigned_var doms asg patient_meta =
     (case mrv_loop doms (pool_of doms asg patient_meta) None of
        Inl e \<Rightarrow> Inl e
      | Inr best \<Rightarrow> Inr (map_option fst best))"

section \<open>Backtracking search with forward checking\<close>

text \<open>
  The closure \<open>backtrack\<close> of \<open>backtracking_search\<close> mutates three dictionaries
  (\<open>domains\<close>, \<open>assigned\<close>, \<open>capacity_map\<close>); the model threads them through every call
  as a \<open>state\<close> and returns the state together with the result.  A subscript or a
  \<open>del\<close> on a missing key is the error \<open>KeyError\<close>.
\<close>

definition saturated :: "(doctor_id, int) dict \<Rightarrow> (val, int) dict \<Rightarrow> val \<Rightarrow> bool" where
  "saturated doctor_capacity cm v =
     (case v of (doc, s) \<Rightarrow> dict_get cm (doc, s) 0 \<ge> dict_get doctor_capacity doc 1)"

text \<open>Lines 234 to 236: the tentative assignment.\<close>

definition place :: "patient_id \<Rightarrow> val \<Rightarrow> state \<Rightarrow> state" where
  "place var v st =
     st\<lparr>assigned := dict_set (assigned st) var v,
        capacity_map := dict_set (capacity_map st) v (dict_get (capacity_map st) v 0 + 1)\<rparr>"

text \<open>
  Lines 239 to 259: the loop over \<open>domains\<close>.  The result is the domains, the snapshot
  of removed values and the flag \<open>failure\<close>; at the \<open>break\<close> the domain of the patient
  that ran empty has not been replaced, while its snapshot entry is already filled.
\<close>

fun forward_check_loop :: "(doctor_id, int) dict \<Rightarrow> (patient_id, val) dict \<Rightarrow> (val, int) dict \<Rightarrow>
    patient_id list \<Rightarrow> (patient_id, val list) dict \<Rightarrow> (patient_id, val list) dict \<Rightarrow>
    error + ((patient_id, val list) dict \<times> (patient_id, val list) dict \<times> bool)" where
  "forward_check_loop dc asg cm [] doms snap = Inr (doms, snap, False)"
| "forward_check_loop dc asg cm (other # rest) doms snap =
     (if dict_mem asg other then forward_check_loop dc asg cm rest doms snap
      else
        (case dict_index doms other of
           Inl e \<Rightarrow> Inl e
         | Inr dvals \<Rightarrow>
             (let new_domain = filter (\<lambda>v. \<not> saturated dc cm v) dvals;
                  snap' = dict_set snap other (filter (saturated dc cm) dvals)
              in if new_domain = [] then Inr (doms, snap', True)
                 else forward_check_loop dc asg cm rest (dict_set doms other new_domain) snap')))"

definition forward_check :: "(doctor_id, int) dict \<Rightarrow> state \<Rightarrow>
    error + (state \<times> (patient_id, val list) dict \<times> bool)" where
  "forward_check dc st =
     (case forward_check_loop dc (assigned st) (capacity_map st) (map fst (domains st)) (domains st) [] of
        Inl e \<Rightarrow> Inl e
      | Inr (doms, snap, failure) \<Rightarrow> Inr (st\<lparr>domains := doms\<rparr>, snap, failure))"

text \<open>Lines 268 to 270: the decrement of the capacity tracker, with its fallback 1.\<close>

definition decrement :: "(val, int) dict \<Rightarrow> val \<Rightarrow> (val, int) dict" where
  "decrement cm cap_key =
     (let c = dict_get cm cap_key 1 - 1;
          cm' = dict_set cm cap_key c
      in if c = 0 then AList.delete cap_key cm' else cm')"

text \<open>Lines 272 to 276: the removed values are appended and the list sorted by slot.\<close>

fun restore_loop :: "(patient_id, val list) dict \<Rightarrow> (patient_id, val list) dict \<Rightarrow>
    error + (patient_id, val list) dict" where
  "restore_loop [] doms = Inr doms"
| "restore_loop ((other, removed) # rest) doms =
     (if removed \<noteq> [] then
        (case dict_index doms other of
           Inl e \<Rightarrow> Inl e
         | Inr dvals \<Rightarrow> restore_loop rest (dict_set doms other (sort_key snd (dvals @ removed))))
      else restore_loop rest doms)"

definition undo :: "patient_id \<Rightarrow> val \<Rightarrow> (patient_id, val list) dict \<Rightarrow> state \<Rightarrow> error + state" where
  "undo var cap_key removed_snapshot st =
     (case dict_del (assigned st) var of
        Inl e \<Rightarrow> Inl e
      | Inr asg \<Rightarrow>
          (case restore_loop removed_snapshot (domains st) of
             Inl e \<Rightarrow> Inl e
           | Inr doms \<Rightarrow>
               Inr \<lparr>domains = doms, assigned = asg,
                    capacity_map = decrement (capacity_map st) cap_key\<rparr>))"

text \<open>
  The recursion of \<open>backtrack\<close> is bounded by a fuel argument that counts the remaining
  depth: \<open>None\<close> means the fuel ran out, \<open>Some (Inl e)\<close> that the call raised, and
  \<open>Some (Inr (r, st))\<close> that it returned \<open>r\<close> and left the dictionaries as \<open>st\<close>.
  \<open>try_values\<close> is the loop over \<open>domain_vals\<close>.
\<close>

fun backtrack :: "(doctor_id, int) dict \<Rightarrow> (patient_id, meta) dict \<Rightarrow> nat \<Rightarrow> state \<Rightarrow>
    (error + ((patient_id, val) dict option \<times> state)) option"
and try_values :: "(doctor_id, int) dict \<Rightarrow> (patient_id, meta) dict \<Rightarrow> nat \<Rightarrow> patient_id \<Rightarrow>
    val list \<Rightarrow> state \<Rightarrow> (error + ((patient_id, val) dict option \<times> state)) option" where
  "backtrack dc pm 0 st = None"
| "backtrack dc pm (Suc n) st =
     (if length (assigned st) = length (domains st) then Some (Inr (Some (assigned st), st))
      else
        (case select_unassigned_var (domains st) (assigned st) pm of
           Inl e \<Rightarrow> Some (Inl e)
         | Inr None \<Rightarrow> Some (Inr (None, st))
         | Inr (Some var) \<Rightarrow>
             (case dict_index (domains st) var of
                Inl e \<Rightarrow> Some (Inl e)
              | Inr dvals \<Rightarrow> try_values dc pm n var (sort_key snd dvals) st)))"
| "try_values dc pm n var [] st = Some (Inr (None, st))"
| "try_values dc pm n var (v # vals) st =
     (if dict_get (capacity_map st) v 0 \<ge> dict_get dc (fst v) 1 then try_values dc pm n var vals st
      else
        (case forward_check dc (place var v st) of
           Inl e \<Rightarrow> Some (Inl e)
         | Inr (st2, removed_snapshot, failure) \<Rightarrow>
             (case (if \<not> failure then backtrack dc pm n st2 else Some (Inr (None, st2))) of
                None \<Rightarrow> None
              | Some (Inl e) \<Rightarrow> Some (Inl e)
              | Some (Inr (Some result, st3)) \<Rightarrow> Some (Inr (Some result, st3))
              | Some (Inr (None, st3)) \<Rightarrow>
                  (case undo var v removed_snapshot st3 of
                     Inl e \<Rightarrow> Some (Inl e)
                   | Inr st4 \<Rightarrow> try_values dc pm n var vals st4))))"

text \<open>
  Lines 280 to 282: the dictionary comprehension copies every domain list, and the
  search starts from empty \<open>assigned\<close> and \<open>capacity_map\<close>.  The depth of the recursion
  never exceeds the number of patients plus one.
\<close>

definition initial_state :: "(patient_id, val list) dict \<Rightarrow> state" where
  "initial_state doms = \<lparr>domains = map (\<lambda>(k, v). (k, v)) doms, assigned = [], capacity_map = []\<rparr>"

definition backtracking_search_run :: "(patient_id, val list) dict \<Rightarrow> (doctor_id, int) dict \<Rightarrow>
    (patient_id, meta) dict \<Rightarrow> (error + ((patient_id, val) dict option \<times> state)) option" where
  "backtracking_search_run doms doctor_capacity patient_meta =
     backtrack doctor_capacity patient_meta (Suc (length doms)) (initial_state doms)"

definition backtracking_search :: "(patient_id, val list) dict \<Rightarrow> (doctor_id, int) dict \<Rightarrow>
    (patient_id, meta) dict \<Rightarrow> (error + (patient_id, val) dict option) option" where
  "backtracking_search doms doctor_capacity patient_meta =
     map_option (map_sum id fst) (backtracking_search_run doms doctor_capacity patient_meta)"

section \<open>The dictionaries of a scheduling run\<close>

text \<open>Lines 289 to 308 of \<open>schedule_for_date\<close>: without doctors or without patients
  the function returns at once with no assignment; otherwise the dictionaries handed to the
  search are built from the rows, and the search is run on the domains of \<open>build_domains\<close>.
  The result is the assignment of the search, or \<open>None\<close> where the function returns
  \<open>(False, None, message)\<close>; the message and the rows written to the database are not
  part of it.\<close>

definition patient_meta_of :: "patient list \<Rightarrow> (patient_id, meta) dict" where
  "patient_meta_of patients =
     foldl (\<lambda>m p. dict_set m (p_id p) \<lparr>m_emergency = Some (emergency p), m_name = p_name p\<rparr>) [] patients"

definition doctor_capacity_of :: "doctor list \<Rightarrow> (doctor_id, int) dict" where
  "doctor_capacity_of doctors = foldl (\<lambda>m d. dict_set m (d_id d) (capacity_per_slot d)) [] doctors"

definition schedule_search :: "patient list \<Rightarrow> doctor list \<Rightarrow> slot list \<Rightarrow>
    (error + (patient_id, val) dict option) option" where
  "schedule_search patients doctors slots =
     (if doctors = [] then Some (Inr None)
      else if patients = [] then Some (Inr None)
      else backtracking_search (build_domains patients doctors slots) (doctor_capacity_of doctors)
             (patient_meta_of patients))"

section \<open>The search over a heap of list objects\<close>

text \<open>
  The lists of \<open>domains\<close> are objects: the caller's dictionary and the dictionary of the
  search hold references to them, and \<open>extend\<close> and \<open>sort\<close> change a list in place.  To say
  what the caller sees, the search is modelled once more over a heap of list objects.  A
  reference is an index into the heap, a new list is appended to the heap, and a list is
  changed in place by updating its cell.  The pairs in the lists are immutable values, and
  the lists no dictionary of \<open>domains\<close> ever holds (\<open>domain_vals\<close>, the lists of the snapshot,
  a \<open>new_domain\<close> that ran empty) stay values too.
\<close>

type_synonym addr = nat
type_synonym heap = "val list list"

record ref_state =
  r_heap :: heap
  r_domains :: "(patient_id, addr) dict"
  r_assigned :: "(patient_id, val) dict"
  r_capacity_map :: "(val, int) dict"

text \<open>The dictionary of lists that a dictionary of references stands for.\<close>

definition deref_dict :: "heap \<Rightarrow> (patient_id, addr) dict \<Rightarrow> (patient_id, val list) dict" where
  "deref_dict h d = map (\<lambda>(k, a). (k, h ! a)) d"

definition view :: "ref_state \<Rightarrow> state" where
  "view rs = \<lparr>domains = deref_dict (r_heap rs) (r_domains rs), assigned = r_assigned rs,
              capacity_map = r_capacity_map rs\<rparr>"

definition place_ref :: "patient_id \<Rightarrow> val \<Rightarrow> ref_state \<Rightarrow> ref_state" where
  "place_ref var v rs =
     rs\<lparr>r_assigned := dict_set (r_assigned rs) var v,
        r_capacity_map := dict_set (r_capacity_map rs) v (dict_get (r_capacity_map rs) v 0 + 1)\<rparr>"

text \<open>Line 259 binds the key to the new list \<open>new_domain\<close>, a new object.\<close>

fun forward_check_loop_ref :: "(doctor_id, int) dict \<Rightarrow> (patient_id, val) dict \<Rightarrow> (val, int) dict \<Rightarrow>
    patient_id list \<Rightarrow> heap \<Rightarrow> (patient_id, addr) dict \<Rightarrow> (patient_id, val list) dict \<Rightarrow>
    error + (heap \<times> (patient_id, addr) dict \<times> (patient_id, val list) dict \<times> bool)" where
  "forward_check_loop_ref dc asg cm [] h doms snap = Inr (h, doms, snap, False)"
| "forward_check_loop_ref dc asg cm (other # rest) h doms snap =
     (if dict_mem asg other then forward_check_loop_ref dc asg cm rest h doms snap
      else
        (case dict_index doms other of
           Inl e \<Rightarrow> Inl e
         | Inr a \<Rightarrow>
             (let new_domain = filter (\<lambda>v. \<not> saturated dc cm v) (h ! a);
                  snap' = dict_set snap other (filter (saturated dc cm) (h ! a))
              in if new_domain = [] then Inr (h, doms, snap', True)
                 else forward_check_loop_ref dc asg cm rest (h @ [new_domain])
                        (dict_set doms other (length h)) snap')))"

definition forward_check_ref :: "(doctor_id, int) dict \<Rightarrow> ref_state \<Rightarrow>
    error + (ref_state \<times> (patient_id, val list) dict \<times> bool)" where
  "forward_check_ref dc rs =
     (case forward_check_loop_ref dc (r_assigned rs) (r_capacity_map rs) (map fst (r_domains rs))
             (r_heap rs) (r_domains rs) [] of
        Inl e \<Rightarrow> Inl e
      | Inr (h, doms, snap, failure) \<Rightarrow> Inr (rs\<lparr>r_heap := h, r_domains := doms\<rparr>, snap, failure))"

text \<open>Lines 275 and 276 change the list bound to the key in place.\<close>

fun restore_loop_ref :: "(patient_id, val list) dict \<Rightarrow> (patient_id, addr) dict \<Rightarrow> heap \<Rightarrow>
    error + heap" where
  "restore_loop_ref [] doms h = Inr h"
| "restore_loop_ref ((other, removed) # rest) doms h =
     (if removed \<noteq> [] then
        (case dict_index doms other of
           Inl e \<Rightarrow> Inl e
         | Inr a \<Rightarrow> restore_loop_ref rest doms (h[a := sort_key snd (h ! a @ removed)]))
      else restore_loop_ref rest doms h)"

definition undo_ref :: "patient_id \<Rightarrow> val \<Rightarrow> (patient_id, val list) dict \<Rightarrow> ref_state \<Rightarrow>
    error + ref_state" where
  "undo_ref var cap_key removed_snapshot rs =
     (case dict_del (r_assigned rs) var of
        Inl e \<Rightarrow> Inl e
      | Inr asg \<Rightarrow>
          (case restore_loop_ref removed_snapshot (r_domains rs) (r_heap rs) of
             Inl e \<Rightarrow> Inl e
           | Inr h \<Rightarrow>
               Inr \<lparr>r_heap = h, r_domains = r_domains rs, r_assigned = asg,
                    r_capacity_map = decrement (r_capacity_map rs) cap_key\<rparr>))"

text \<open>\<open>select_unassigned_var\<close> and line 222 only read the lists.\<close>

fun backtrack_ref :: "(doctor_id, int) dict \<Rightarrow> (patient_id, meta) dict \<Rightarrow> nat \<Rightarrow> ref_state \<Rightarrow>
    (error + ((patient_id, val) dict option \<times> ref_state)) option"
and try_values_ref :: "(doctor_id, int) dict \<Rightarrow> (patient_id, meta) dict \<Rightarrow> nat \<Rightarrow> patient_id \<Rightarrow>
    val list \<Rightarrow> ref_state \<Rightarrow> (error + ((patient_id, val) dict option \<times> ref_state)) option" where
  "backtrack_ref dc pm 0 rs = None"
| "backtrack_ref dc pm (Suc n) rs =
     (if length (r_assigned rs) = length (r_domains rs) then Some (Inr (Some (r_assigned rs), rs))
      else
        (case select_unassigned_var (deref_dict (r_heap rs) (r_domains rs)) (r_assigned rs) pm of
           Inl e \<Rightarrow> Some (Inl e)
         | Inr None \<Rightarrow> Some (Inr (None, rs))
         | Inr (Some var) \<Rightarrow>
             (case dict_index (r_domains rs) var of
                Inl e \<Rightarrow> Some (Inl e)
              | Inr a \<Rightarrow> try_values_ref dc pm n var (sort_key snd (r_heap rs ! a)) rs)))"
| "try_values_ref dc pm n var [] rs = Some (Inr (None, rs))"
| "try_values_ref dc pm n var (v # vals) rs =
     (if dict_get (r_capacity_map rs) v 0 \<ge> dict_get dc (fst v) 1 then try_values_ref dc pm n var vals rs
      else
        (case forward_check_ref dc (place_ref var v rs) of
           Inl e \<Rightarrow> Some (Inl e)
         | Inr (rs2, removed_snapshot, failure) \<Rightarrow>
             (case (if \<not> failure then backtrack_ref dc pm n rs2 else Some (Inr (None, rs2))) of
                None \<Rightarrow> None
              | Some (Inl e) \<Rightarrow> Some (Inl e)
              | Some (Inr (Some result, rs3)) \<Rightarrow> Some (Inr (Some result, rs3))
              | Some (Inr (None, rs3)) \<Rightarrow>
                  (case undo_ref var v removed_snapshot rs3 of
                     Inl e \<Rightarrow> Some (Inl e)
                   | Inr rs4 \<Rightarrow> try_values_ref dc pm n var vals rs4))))"

text \<open>Line 281: every list of the caller is copied into a new list, and the new
  dictionary holds the copies.\<close>

definition copy_domains :: "heap \<Rightarrow> (patient_id, addr) dict \<Rightarrow> heap \<times> (patient_id, addr) dict" where
  "copy_domains h caller =
     foldl (\<lambda>(h', d) (k, a). (h' @ [h' ! a], dict_set d k (length h'))) (h, []) caller"

definition backtracking_search_ref :: "heap \<Rightarrow> (patient_id, addr) dict \<Rightarrow> (doctor_id, int) dict \<Rightarrow>
    (patient_id, meta) dict \<Rightarrow> (error + ((patient_id, val) dict option \<times> ref_state)) option" where
  "backtracking_search_ref h caller doctor_capacity patient_meta =
     (case copy_domains h caller of
        (h', doms) \<Rightarrow>
          backtrack_ref doctor_capacity patient_meta (Suc (length doms))
            \<lparr>r_heap = h', r_domains = doms, r_assigned = [], r_capacity_map = []\<rparr>)"

section \<open>The decrement of the design\<close>

text \<open>The decrement of the capacity tracker as the design describes it: subtract one
  from the count of a key that is present, and remove the entry when it reaches zero.\<close>

definition decrement_plain :: "(val, int) dict \<Rightarrow> val \<Rightarrow> (val, int) dict option" where
  "decrement_plain cm cap_key =
     (case map_of cm cap_key of
        None \<Rightarrow> None
      | Some c \<Rightarrow> Some (if c - 1 = 0 then AList.delete cap_key cm else AList.update cap_key (c - 1) cm))"

text \<open>
  The search with the plain decrement in its undo step: the count is read by subscript,
  so a missing key raises \<open>KeyError\<close>.  Everything else is as in \<open>backtrack\<close>.
\<close>

definition undo_plain :: "patient_id \<Rightarrow> val \<Rightarrow> (patient_id, val list) dict \<Rightarrow> state \<Rightarrow> error + state" where
  "undo_plain var cap_key removed_snapshot st =
     (case dict_del (assigned st) var of
        Inl e \<Rightarrow> Inl e
      | Inr asg \<Rightarrow>
          (case decrement_plain (capacity_map st) cap_key of
             None \<Rightarrow> Inl KeyError
           | Some cm \<Rightarrow>
               (case restore_loop removed_snapshot (domains st) of
                  Inl e \<Rightarrow> Inl e
                | Inr doms \<Rightarrow> Inr \<lparr>domains = doms, assigned = asg, capacity_map = cm\<rparr>)))"

fun backtrack_plain :: "(doctor_id, int) dict \<Rightarrow> (patient_id, meta) dict \<Rightarrow> nat \<Rightarrow> state \<Rightarrow>
    (error + ((patient_id, val) dict option \<times> state)) option"
and try_values_plain :: "(doctor_id, int) dict \<Rightarrow> (patient_id, meta) dict \<Rightarrow> nat \<Rightarrow> patient_id \<Rightarrow>
    val list \<Rightarrow> state \<Rightarrow> (error + ((patient_id, val) dict option \<times> state)) option" where
  "backtrack_plain dc pm 0 st = None"
| "backtrack_plain dc pm (Suc n) st =
     (if length (assigned st) = length (domains st) then Some (Inr (Some (assigned st), st))
      else
        (case select_unassigned_var (domains st) (assigned st) pm of
           Inl e \<Rightarrow> Some (Inl e)
         | Inr None \<Rightarrow> Some (Inr (None, st))
         | Inr (Some var) \<Rightarrow>
             (case dict_index (domains st) var of
                Inl e \<Rightarrow> Some (Inl e)
              | Inr dvals \<Rightarrow> try_values_plain dc pm n var (sort_key snd dvals) st)))"
| "try_values_plain dc pm n var [] st = Some (Inr (None, st))"
| "try_values_plain dc pm n var (v # vals) st =
     (if dict_get (capacity_map st) v 0 \<ge> dict_get dc (fst v) 1 then try_values_plain dc pm n var vals st
      else
        (case forward_check dc (place var v st) of
           Inl e \<Rightarrow> Some (Inl e)
         | Inr (st2, removed_snapshot, failure) \<Rightarrow>
             (case (if \<not> failure then backtrack_plain dc pm n st2 else Some (Inr (None, st2))) of
                None \<Rightarrow> None
              | Some (Inl e) \<Rightarrow> Some (Inl e)
              | Some (Inr (Some result, st3)) \<Rightarrow> Some (Inr (Some result, st3))
              | Some (Inr (None, st3)) \<Rightarrow>
                  (case undo_plain var v removed_snapshot st3 of
                     Inl e \<Rightarrow> Some (Inl e)
                   | Inr st4 \<Rightarrow> try_values_plain dc pm n var vals st4))))"

definition backtracking_search_plain :: "(patient_id, val list) dict \<Rightarrow> (doctor_id, int) dict \<Rightarrow>
    (patient_id, meta) dict \<Rightarrow> (error + (patient_id, val) dict option) option" where
  "backtracking_search_plain doms doctor_capacity patient_meta =
     map_option (map_sum id fst)
       (backtrack_plain doctor_capacity patient_meta (Suc (length doms)) (initial_state doms))"

section \<open>Predicates of the specification and of the proofs\<close>

text \<open>The size of a patient's current domain, and the choice the MRV policy asks for:
  the first patient of the pool whose domain is the smallest.\<close>

definition domain_size :: "(patient_id, val list) dict \<Rightarrow> patient_id \<Rightarrow> nat" where
  "domain_size doms v = (case map_of doms v of None \<Rightarrow> 0 | Some dvals \<Rightarrow> length dvals)"

definition first_min :: "(patient_id, val list) dict \<Rightarrow> patient_id list \<Rightarrow> patient_id \<Rightarrow> bool" where
  "first_min doms pool v \<longleftrightarrow>
     (\<exists>pre post. pool = pre @ v # post \<and>
        (\<forall>u \<in> set pre. domain_size doms v < domain_size doms u) \<and>
        (\<forall>u \<in> set post. domain_size doms v \<le> domain_size doms u))"

text \<open>The number of patients an assignment maps to a pair \<open>(doctor, slot)\<close>.\<close>

definition patients_at :: "(patient_id, val) dict \<Rightarrow> val \<Rightarrow> nat" where
  "patients_at asg k = length (filter (\<lambda>e. snd e = k) asg)"

text \<open>Every count stored in the capacity map is positive.\<close>

definition cm_ok :: "(val, int) dict \<Rightarrow> bool" where
  "cm_ok cm \<longleftrightarrow> (\<forall>(k, c) \<in> set cm. 0 < c)"

text \<open>Every candidate, respectively every chosen value, satisfies a property \<open>P\<close>.\<close>

definition doms_sat :: "(patient_id \<Rightarrow> val \<Rightarrow> bool) \<Rightarrow> (patient_id, val list) dict \<Rightarrow> bool" where
  "doms_sat P doms \<longleftrightarrow> (\<forall>(k, vs) \<in> set doms. \<forall>v \<in> set vs. P k v)"

definition asg_sat :: "(patient_id \<Rightarrow> val \<Rightarrow> bool) \<Rightarrow> (patient_id, val) dict \<Rightarrow> bool" where
  "asg_sat P asg \<longleftrightarrow> (\<forall>(k, v) \<in> set asg. P k v)"

text \<open>
  What a call leaves behind: the keys of \<open>domains\<close> never change; a call that fails
  returns \<open>assigned\<close> and \<open>capacity_map\<close> as it found them; a call that succeeds returns
  \<open>assigned\<close> itself, with as many entries as there are patients.
\<close>

definition frame_ok :: "state \<Rightarrow> (patient_id, val) dict option \<Rightarrow> state \<Rightarrow> bool" where
  "frame_ok st r st' \<longleftrightarrow>
     map fst (domains st') = map fst (domains st) \<and> cm_ok (capacity_map st') \<and>
     (case r of
        None \<Rightarrow> assigned st' = assigned st \<and> capacity_map st' = capacity_map st
      | Some a \<Rightarrow> a = assigned st' \<and> length a = length (domains st'))"

text \<open>The assigned patients are patients of \<open>domains\<close>, each assigned once.\<close>

definition asg_wf :: "state \<Rightarrow> bool" where
  "asg_wf st \<longleftrightarrow> cm_ok (capacity_map st) \<and> distinct (map fst (assigned st)) \<and>
     fst ` set (assigned st) \<subseteq> fst ` set (domains st)"

definition snap_spares :: "patient_id \<Rightarrow> (patient_id, val list) dict \<Rightarrow> bool" where
  "snap_spares q snap \<longleftrightarrow> (\<forall>(k, removed) \<in> set snap. removed \<noteq> [] \<longrightarrow> k \<noteq> q)"

text \<open>The references of the search are to lists made after the call began, no two of them to
  the same list; \<open>N\<close> is the size of the heap when the call began.\<close>

definition refs_ok :: "nat \<Rightarrow> heap \<Rightarrow> (patient_id, addr) dict \<Rightarrow> bool" where
  "refs_ok N h d \<longleftrightarrow>
     N \<le> length h \<and> distinct (map snd d) \<and> (\<forall>a \<in> snd ` set d. N \<le> a \<and> a < length h)"

text \<open>A call of the search over the heap does what the call over the lists does, and leaves
  the first \<open>N\<close> cells of the heap as they were.\<close>

definition sim_out :: "nat \<Rightarrow> ref_state \<Rightarrow>
    (error + ((patient_id, val) dict option \<times> ref_state)) option \<Rightarrow>
    (error + ((patient_id, val) dict option \<times> state)) option \<Rightarrow> bool" where
  "sim_out N rs out_ref out \<longleftrightarrow>
     (case out_ref of
        None \<Rightarrow> out = None
      | Some (Inl e) \<Rightarrow> out = Some (Inl e)
      | Some (Inr (r, rs')) \<Rightarrow>
          out = Some (Inr (r, view rs')) \<and> refs_ok N (r_heap rs') (r_domains rs') \<and>
          take N (r_heap rs') = take N (r_heap rs))"

text \<open>Lines 261 to 264: the recursive call, made only when forward checking did not fail;
  the same for the other two models of the search.\<close>

definition explore :: "(doctor_id, int) dict \<Rightarrow> (patient_id, meta) dict \<Rightarrow> nat \<Rightarrow> state \<Rightarrow> bool \<Rightarrow>
    (error + ((patient_id, val) dict option \<times> state)) option" where
  "explore dc pm n st2 failure = (if \<not> failure then backtrack dc pm n st2 else Some (Inr (None, st2)))"

definition explore_ref :: "(doctor_id, int) dict \<Rightarrow> (patient_id, meta) dict \<Rightarrow> nat \<Rightarrow> ref_state \<Rightarrow> bool \<Rightarrow>
    (error + ((patient_id, val) dict option \<times> ref_state)) option" where
  "explore_ref dc pm n rs2 failure =
     (if \<not> failure then backtrack_ref dc pm n rs2 else Some (Inr (None, rs2)))"

definition explore_plain :: "(doctor_id, int) dict \<Rightarrow> (patient_id, meta) dict \<Rightarrow> nat \<Rightarrow> state \<Rightarrow> bool \<Rightarrow>
    (error + ((patient_id, val) dict option \<times> state)) option" where
  "explore_plain dc pm n st2 failure =
     (if \<not> failure then backtrack_plain dc pm n st2 else Some (Inr (None, st2)))"

text \<open>Every key has the same set of pairs in both dictionaries.\<close>

definition same_elems :: "(patient_id, val list) dict \<Rightarrow> (patient_id, val list) dict \<Rightarrow> bool" where
  "same_elems d d' \<longleftrightarrow> (\<forall>k vs. map_of d k = Some vs \<longrightarrow> (\<exists>vs'. map_of d' k = Some vs' \<and> set vs' = set vs))"

section \<open>Example inputs\<close>

text \<open>Rows, domains and states on which the theorems are instantiated.\<close>

definition example_doctors :: "doctor list" where
  "example_doctors =
     [\<lparr>d_id = 1, d_name = ''Dr. Alice'', specialty = Some ''Cardiology'', capacity_per_slot = 1\<rparr>,
      \<lparr>d_id = 2, d_name = ''Dr. Bob'', specialty = Some ''General'', capacity_per_slot = 2\<rparr>]"

definition example_patient :: patient where
  "example_patient =
     \<lparr>p_id = 1, p_name = ''Jane Roe'', needs_specialist = 1, specialty_required = Some ''cardiology'',
      emergency = 0, preferred_slots = Some ''09:30, 10:00''\<rparr>"

definition example_patients :: "patient list" where
  "example_patients =
     [example_patient,
      \<lparr>p_id = 2, p_name = ''John Doe'', needs_specialist = 0, specialty_required = None,
       emergency = 1, preferred_slots = None\<rparr>]"

definition example_meta :: "(patient_id, meta) dict" where
  "example_meta =
     [(1, \<lparr>m_emergency = Some 0, m_name = ''Jane Roe''\<rparr>),
      (2, \<lparr>m_emergency = Some 1, m_name = ''John Doe''\<rparr>)]"

definition late_patient :: patient where
  "late_patient =
     \<lparr>p_id = 3, p_name = ''Eve Q'', needs_specialist = 0, specialty_required = None,
      emergency = 0, preferred_slots = Some ''18:00''\<rparr>"

definition solo_doctor :: doctor where
  "solo_doctor = \<lparr>d_id = 7, d_name = ''Dr. Dan'', specialty = None, capacity_per_slot = 1\<rparr>"

definition solo_patient :: patient where
  "solo_patient =
     \<lparr>p_id = 4, p_name = ''Mallory X'', needs_specialist = 0, specialty_required = None,
      emergency = 0, preferred_slots = None\<rparr>"

definition unnamed_specialty_patient :: patient where
  "unnamed_specialty_patient =
     \<lparr>p_id = 5, p_name = ''Charlie P'', needs_specialist = 1, specialty_required = Some '''',
      emergency = 0, preferred_slots = Some ''09:30''\<rparr>"

definition crowded_domains :: "(patient_id, val list) dict" where
  "crowded_domains =
     [(1, [(1, ''09:00''), (1, ''09:30'')]), (2, [(2, ''09:00'')]), (3, [(2, ''09:00'')])]"

definition crowded_placed :: state where
  "crowded_placed =
     \<lparr>domains = crowded_domains, assigned = [(1, (1, ''09:00''))],
      capacity_map = [((1, ''09:00''), 1)]\<rparr>"

definition crowded_failed :: state where
  "crowded_failed =
     \<lparr>domains = [(1, [(1, ''09:00''), (1, ''09:30'')]), (2, [(2, ''09:00'')]),
                 (3, [(2, ''09:00''), (2, ''09:00'')])],
      assigned = [(1, (1, ''09:00''))], capacity_map = [((1, ''09:00''), 1)]\<rparr>"

definition tied_domains :: "(patient_id, val list) dict" where
  "tied_domains =
     [(1, [(1, ''09:00'')]), (2, [(1, ''09:00''), (2, ''09:00'')]), (3, [(1, ''09:00'')])]"

definition reordered_domains :: "(patient_id, val list) dict" where
  "reordered_domains =
     [(1, [(1, ''09:00'')]), (2, [(1, ''09:00''), (2, ''09:00'')]), (3, [])]"

definition reordered_placed :: state where
  "reordered_placed =
     \<lparr>domains = [(1, [(1, ''09:00'')]), (2, [(2, ''09:00'')]), (3, [])],
      assigned = [(1, (1, ''09:00''))], capacity_map = [((1, ''09:00''), 1)]\<rparr>"

definition reordered_undone :: state where
  "reordered_undone =
     \<lparr>domains = [(1, [(1, ''09:00'')]), (2, [(2, ''09:00''), (1, ''09:00'')]), (3, [])],
      assigned = [], capacity_map = []\<rparr>"

definition shared_heap :: heap where
  "shared_heap = [[(1, ''09:00'')], [(1, ''09:00''), (2, ''09:00'')]]"

definition shared_caller :: "(patient_id, addr) dict" where
  "shared_caller = [(1, 0), (2, 1), (3, 0)]"

text \<open>Four patients and two doctors of capacity 1: after patient 1 is placed, the recursive
  call places patient 2 and fails at patient 3.\<close>

definition queue_domains :: "(patient_id, val list) dict" where
  "queue_domains =
     [(1, [(1, ''09:00'')]), (2, [(1, ''09:00''), (2, ''09:00'')]), (3, [(2, ''09:00'')]),
      (4, [(2, ''09:00'')])]"

definition queue_placed :: state where
  "queue_placed =
     \<lparr>domains = [(1, [(1, ''09:00'')]), (2, [(2, ''09:00'')]), (3, [(2, ''09:00'')]),
                 (4, [(2, ''09:00'')])],
      assigned = [(1, (1, ''09:00''))], capacity_map = [((1, ''09:00''), 1)]\<rparr>"

definition queue_failed :: state where
  "queue_failed =
     \<lparr>domains = [(1, [(1, ''09:00'')]), (2, [(2, ''09:00'')]), (3, [(2, ''09:00''), (2, ''09:00'')]),
                 (4, [(2, ''09:00'')])],
      assigned = [(1, (1, ''09:00''))], capacity_map = [((1, ''09:00''), 1)]\<rparr>"

definition queue_undone :: state where
  "queue_undone =
     \<lparr>domains = [(1, [(1, ''09:00'')]), (2, [(2, ''09:00''), (1, ''09:00'')]),
                 (3, [(2, ''09:00''), (2, ''09:00'')]), (4, [(2, ''09:00'')])],
      assigned = [], capacity_map = []\<rparr>"

section \<open>Dictionaries\<close>

lemma dict_mem_iff: "dict_mem d k \<longleftrightarrow> k \<in> fst ` set d"
  by (simp add: dict_mem_def map_of_eq_None_iff)

lemma dict_index_key:
  "k \<in> fst ` set d \<Longrightarrow> \<exists>v. map_of d k = Some v \<and> dict_index d k = Inr v"
  by (cases "map_of d k") (auto simp: dict_index_def map_of_eq_None_iff)

lemma dict_index_Inr: "dict_index d k = Inr v \<longleftrightarrow> map_of d k = Some v"
  by (simp add: dict_index_def split: option.splits)

lemma keys_dict_set_present:
  "k \<in> fst ` set d \<Longrightarrow> map fst (dict_set d k v) = map fst d"
  by (simp add: dict_set_def update_keys)

lemma keys_dict_set_new:
  "k \<notin> fst ` set d \<Longrightarrow> dict_set d k v = d @ [(k, v)]"
  unfolding dict_set_def by (induction d) auto

lemma set_dict_set: "set (dict_set d k v) \<subseteq> insert (k, v) (set d)"
  unfolding dict_set_def by (induction d) auto

lemma dom_dict_set: "fst ` set (dict_set d k v) = insert k (fst ` set d)"
  by (simp add: dict_set_def dom_update)

lemma map_of_dict_set: "map_of (dict_set d k v) k' = (if k' = k then Some v else map_of d k')"
  by (simp add: dict_set_def update_conv')

lemma dict_del_set_new:
  "k \<notin> fst ` set d \<Longrightarrow> dict_del (dict_set d k v) k = Inr d"
  by (simp add: dict_del_def dict_mem_iff dom_dict_set) (simp add: dict_set_def delete_update_same)

lemma cm_ok_get: "cm_ok cm \<Longrightarrow> 0 \<le> dict_get cm k 0"
proof (cases "map_of cm k")
  case None then show ?thesis by (simp add: dict_get_def)
next
  case (Some c)
  assume "cm_ok cm"
  moreover from Some have "(k, c) \<in> set cm" by (rule map_of_SomeD)
  ultimately have "0 < c" by (auto simp: cm_ok_def)
  then show ?thesis using Some by (simp add: dict_get_def)
qed

lemma cm_ok_place: "cm_ok cm \<Longrightarrow> cm_ok (dict_set cm k (dict_get cm k 0 + 1))"
proof -
  assume ok: "cm_ok cm"
  have "0 < dict_get cm k 0 + 1" using cm_ok_get [OF ok, of k] by simp
  then show ?thesis using ok set_dict_set [of cm k "dict_get cm k 0 + 1"]
    unfolding cm_ok_def by blast
qed

lemma decrement_place:
  assumes "cm_ok cm"
  shows "decrement (dict_set cm k (dict_get cm k 0 + 1)) k = cm"
proof (cases "map_of cm k")
  case None
  then have "k \<notin> fst ` set cm" by (simp add: map_of_eq_None_iff)
  then show ?thesis using None
    by (simp add: decrement_def dict_get_def dict_set_def update_conv' delete_update_same)
next
  case (Some c)
  then have "(k, c) \<in> set cm" by (rule map_of_SomeD)
  with assms have "0 < c" by (auto simp: cm_ok_def)
  then show ?thesis using Some
    by (simp add: decrement_def dict_get_def dict_set_def update_conv' update_triv)
qed

section \<open>The variable selector\<close>

lemma first_min_here:
  "\<forall>u \<in> set rest. domain_size doms v \<le> domain_size doms u \<Longrightarrow> first_min doms (v # rest) v"
  unfolding first_min_def by (rule exI [of _ "[]"]) simp

lemma first_min_later:
  "first_min doms rest w \<Longrightarrow> domain_size doms w < domain_size doms x \<Longrightarrow> first_min doms (x # rest) w"
  unfolding first_min_def
proof -
  assume "\<exists>pre post. rest = pre @ w # post \<and>
        (\<forall>u \<in> set pre. domain_size doms w < domain_size doms u) \<and>
        (\<forall>u \<in> set post. domain_size doms w \<le> domain_size doms u)"
    and lt: "domain_size doms w < domain_size doms x"
  then obtain pre post where r: "rest = pre @ w # post"
    and p1: "\<forall>u \<in> set pre. domain_size doms w < domain_size doms u"
    and p2: "\<forall>u \<in> set post. domain_size doms w \<le> domain_size doms u" by blast
  have "x # rest = (x # pre) @ w # post" using r by simp
  moreover have "\<forall>u \<in> set (x # pre). domain_size doms w < domain_size doms u" using p1 lt by simp
  ultimately show "\<exists>pre post. x # rest = pre @ w # post \<and>
        (\<forall>u \<in> set pre. domain_size doms w < domain_size doms u) \<and>
        (\<forall>u \<in> set post. domain_size doms w \<le> domain_size doms u)" using p2 by blast
qed

lemma mrv_loop_Some:
  "set pool \<subseteq> fst ` set doms \<Longrightarrow>
   (mrv_loop doms pool (Some (b, bl)) = Inr (Some (b, bl)) \<and> (\<forall>u \<in> set pool. bl \<le> domain_size doms u)) \<or>
   (\<exists>w. mrv_loop doms pool (Some (b, bl)) = Inr (Some (w, domain_size doms w)) \<and>
        domain_size doms w < bl \<and> first_min doms pool w)"
proof (induction pool arbitrary: b bl)
  case Nil
  then show ?case by simp
next
  case (Cons x rest)
  from Cons.prems obtain dv where dv: "map_of doms x = Some dv" "dict_index doms x = Inr dv"
    using dict_index_key [of x doms] by auto
  have sz: "domain_size doms x = length dv" using dv by (simp add: domain_size_def)
  have sub: "set rest \<subseteq> fst ` set doms" using Cons.prems by simp
  show ?case
  proof (cases "length dv < bl")
    case True
    then have step: "mrv_loop doms (x # rest) (Some (b, bl)) = mrv_loop doms rest (Some (x, length dv))"
      using dv by simp
    from Cons.IH [OF sub, of x "length dv"] show ?thesis
    proof
      assume "mrv_loop doms rest (Some (x, length dv)) = Inr (Some (x, length dv)) \<and>
        (\<forall>u \<in> set rest. length dv \<le> domain_size doms u)"
      then show ?thesis using step True sz first_min_here [of rest doms x] by auto
    next
      assume "\<exists>w. mrv_loop doms rest (Some (x, length dv)) = Inr (Some (w, domain_size doms w)) \<and>
        domain_size doms w < length dv \<and> first_min doms rest w"
      then obtain w where w: "mrv_loop doms rest (Some (x, length dv)) = Inr (Some (w, domain_size doms w))"
        "domain_size doms w < length dv" "first_min doms rest w" by blast
      then have "first_min doms (x # rest) w" using first_min_later sz by simp
      then show ?thesis using step w True by auto
    qed
  next
    case False
    then have step: "mrv_loop doms (x # rest) (Some (b, bl)) = mrv_loop doms rest (Some (b, bl))"
      using dv by simp
    from Cons.IH [OF sub, of b bl] show ?thesis
    proof
      assume "mrv_loop doms rest (Some (b, bl)) = Inr (Some (b, bl)) \<and>
        (\<forall>u \<in> set rest. bl \<le> domain_size doms u)"
      then show ?thesis using step False sz by auto
    next
      assume "\<exists>w. mrv_loop doms rest (Some (b, bl)) = Inr (Some (w, domain_size doms w)) \<and>
        domain_size doms w < bl \<and> first_min doms rest w"
      then obtain w where w: "mrv_loop doms rest (Some (b, bl)) = Inr (Some (w, domain_size doms w))"
        "domain_size doms w < bl" "first_min doms rest w" by blast
      then have "first_min doms (x # rest) w" using first_min_later [of doms rest w x] sz False by simp
      then show ?thesis using step w by auto
    qed
  qed
qed

lemma mrv_loop_None:
  "set pool \<subseteq> fst ` set doms \<Longrightarrow> pool \<noteq> [] \<Longrightarrow>
   \<exists>w. mrv_loop doms pool None = Inr (Some (w, domain_size doms w)) \<and> first_min doms pool w"
proof (cases pool)
  case Nil
  assume "pool \<noteq> []" with Nil show ?thesis by simp
next
  case (Cons x rest)
  assume sub: "set pool \<subseteq> fst ` set doms"
  from sub Cons obtain dv where dv: "map_of doms x = Some dv" "dict_index doms x = Inr dv"
    using dict_index_key [of x doms] by auto
  have sz: "domain_size doms x = length dv" using dv by (simp add: domain_size_def)
  have step: "mrv_loop doms pool None = mrv_loop doms rest (Some (x, length dv))"
    using Cons dv by simp
  have "set rest \<subseteq> fst ` set doms" using sub Cons by simp
  from mrv_loop_Some [OF this, of x "length dv"] show ?thesis
  proof
    assume "mrv_loop doms rest (Some (x, length dv)) = Inr (Some (x, length dv)) \<and>
        (\<forall>u \<in> set rest. length dv \<le> domain_size doms u)"
    then show ?thesis using step sz Cons first_min_here [of rest doms x] by auto
  next
    assume "\<exists>w. mrv_loop doms rest (Some (x, length dv)) = Inr (Some (w, domain_size doms w)) \<and>
        domain_size doms w < length dv \<and> first_min doms rest w"
    then obtain w where w: "mrv_loop doms rest (Some (x, length dv)) = Inr (Some (w, domain_size doms w))"
        "domain_size doms w < length dv" "first_min doms rest w" by blast
    then have "first_min doms (x # rest) w" using first_min_later sz by simp
    then show ?thesis using step w Cons by auto
  qed
qed

lemma pool_of_subset: "set (pool_of doms asg pm) \<subseteq> fst ` set doms"
  by (auto simp: pool_of_def unassigned_of_def Let_def)

lemma pool_of_Nil_iff: "pool_of doms asg pm = [] \<longleftrightarrow> unassigned_of doms asg = []"
  by (auto simp: pool_of_def Let_def)

lemma select_unassigned_var_None:
  "unassigned_of doms asg = [] \<Longrightarrow> select_unassigned_var doms asg pm = Inr None"
  by (simp add: select_unassigned_var_def pool_of_def Let_def)

lemma select_unassigned_var_Some:
  "unassigned_of doms asg \<noteq> [] \<Longrightarrow>
   \<exists>w. select_unassigned_var doms asg pm = Inr (Some w) \<and> first_min doms (pool_of doms asg pm) w"
  using mrv_loop_None [OF pool_of_subset, of doms asg pm] pool_of_Nil_iff [of doms asg pm]
  by (auto simp: select_unassigned_var_def)

lemma first_min_mem: "first_min doms pool w \<Longrightarrow> w \<in> set pool"
  by (auto simp: first_min_def)

lemma pool_of_unassigned: "set (pool_of doms asg pm) \<subseteq> set (unassigned_of doms asg)"
  by (auto simp: pool_of_def Let_def)

lemma select_unassigned_var_total:
  "\<exists>r. select_unassigned_var doms asg pm = Inr r"
  using select_unassigned_var_None [of doms asg pm] select_unassigned_var_Some [of doms asg pm]
  by (cases "unassigned_of doms asg = []") auto

lemma select_unassigned_var_fresh:
  assumes "select_unassigned_var doms asg pm = Inr (Some w)"
  shows "w \<notin> fst ` set asg \<and> w \<in> fst ` set doms"
proof -
  have "unassigned_of doms asg \<noteq> []"
    using assms select_unassigned_var_None [of doms asg pm] by auto
  from select_unassigned_var_Some [OF this, of pm] assms
  have "first_min doms (pool_of doms asg pm) w" by auto
  then have "w \<in> set (unassigned_of doms asg)"
    using first_min_mem pool_of_unassigned by blast
  then show ?thesis by (auto simp: unassigned_of_def dict_mem_iff)
qed

section \<open>Forward checking and undo\<close>

lemma doms_sat_set:
  "doms_sat P doms \<Longrightarrow> \<forall>v \<in> set vs. P k v \<Longrightarrow> doms_sat P (dict_set doms k vs)"
  using set_dict_set [of doms k vs] unfolding doms_sat_def by blast

lemma doms_sat_lookup:
  "doms_sat P doms \<Longrightarrow> map_of doms k = Some vs \<Longrightarrow> v \<in> set vs \<Longrightarrow> P k v"
  unfolding doms_sat_def by (auto dest: map_of_SomeD)

lemma forward_check_loop_keys:
  "set ks \<subseteq> fst ` set doms \<Longrightarrow>
   \<exists>doms' snap' f. forward_check_loop dc asg cm ks doms snap = Inr (doms', snap', f) \<and>
      map fst doms' = map fst doms \<and> fst ` set snap' \<subseteq> fst ` set snap \<union> set ks"
proof (induction ks arbitrary: doms snap)
  case Nil
  then show ?case by auto
next
  case (Cons other rest)
  show ?case
  proof (cases "dict_mem asg other")
    case True
    have "set rest \<subseteq> fst ` set doms" using Cons.prems by simp
    from Cons.IH [OF this, of snap] obtain doms' snap' f where
      r: "forward_check_loop dc asg cm rest doms snap = Inr (doms', snap', f)"
        "map fst doms' = map fst doms" "fst ` set snap' \<subseteq> fst ` set snap \<union> set rest" by blast
    have "fst ` set snap' \<subseteq> fst ` set snap \<union> set (other # rest)" using r(3) by auto
    then show ?thesis using True r(1,2) by simp
  next
    case False
    from Cons.prems obtain dvals where dv: "dict_index doms other = Inr dvals"
      using dict_index_key [of other doms] by auto
    let ?new = "filter (\<lambda>v. \<not> saturated dc cm v) dvals"
    let ?snap = "dict_set snap other (filter (saturated dc cm) dvals)"
    show ?thesis
    proof (cases "?new = []")
      case True
      then have "forward_check_loop dc asg cm (other # rest) doms snap = Inr (doms, ?snap, True)"
        using False dv by (simp add: Let_def)
      then show ?thesis by (auto simp: dom_dict_set)
    next
      case ne: False
      have k: "map fst (dict_set doms other ?new) = map fst doms"
        using Cons.prems by (simp add: keys_dict_set_present)
      then have "set rest \<subseteq> fst ` set (dict_set doms other ?new)"
        using Cons.prems by (simp add: dom_dict_set) blast
      from Cons.IH [OF this, of ?snap] obtain doms' snap' f where
        r: "forward_check_loop dc asg cm rest (dict_set doms other ?new) ?snap = Inr (doms', snap', f)"
          "map fst doms' = map fst (dict_set doms other ?new)"
          "fst ` set snap' \<subseteq> fst ` set ?snap \<union> set rest" by blast
      have "forward_check_loop dc asg cm (other # rest) doms snap = Inr (doms', snap', f)"
        using False dv ne r(1) by (simp add: Let_def)
      moreover have "fst ` set snap' \<subseteq> fst ` set snap \<union> set (other # rest)"
        using r(3) by (auto simp: dom_dict_set)
      ultimately show ?thesis using r(2) k by simp
    qed
  qed
qed

lemma forward_check_loop_sat:
  "doms_sat P doms \<Longrightarrow> doms_sat P snap \<Longrightarrow>
   forward_check_loop dc asg cm ks doms snap = Inr (doms', snap', f) \<Longrightarrow>
   doms_sat P doms' \<and> doms_sat P snap'"
proof (induction ks arbitrary: doms snap)
  case Nil
  then show ?case by simp
next
  case (Cons other rest)
  show ?case
  proof (cases "dict_mem asg other")
    case True
    then show ?thesis using Cons by simp
  next
    case False
    with Cons.prems(3) obtain dvals where dv: "dict_index doms other = Inr dvals"
      by (auto split: sum.splits)
    then have look: "map_of doms other = Some dvals" by (simp add: dict_index_Inr)
    let ?new = "filter (\<lambda>v. \<not> saturated dc cm v) dvals"
    let ?snap = "dict_set snap other (filter (saturated dc cm) dvals)"
    have all: "\<forall>v \<in> set dvals. P other v" using doms_sat_lookup [OF Cons.prems(1) look] by blast
    have s1: "doms_sat P ?snap" using Cons.prems(2) all by (intro doms_sat_set) auto
    have d1: "doms_sat P (dict_set doms other ?new)" using Cons.prems(1) all by (intro doms_sat_set) auto
    show ?thesis
    proof (cases "?new = []")
      case True
      then show ?thesis using False dv Cons.prems s1 by (auto simp: Let_def)
    next
      case ne: False
      then have "forward_check_loop dc asg cm rest (dict_set doms other ?new) ?snap = Inr (doms', snap', f)"
        using False dv Cons.prems(3) by (simp add: Let_def)
      from Cons.IH [OF d1 s1 this] show ?thesis .
    qed
  qed
qed

lemma restore_loop_keys:
  "fst ` set snap \<subseteq> fst ` set doms \<Longrightarrow>
   \<exists>doms'. restore_loop snap doms = Inr doms' \<and> map fst doms' = map fst doms"
proof (induction snap arbitrary: doms)
  case Nil
  then show ?case by simp
next
  case (Cons e rest)
  obtain other removed where e: "e = (other, removed)" by (cases e)
  show ?case
  proof (cases "removed = []")
    case True
    then show ?thesis using Cons e by simp
  next
    case False
    from Cons.prems e obtain dvals where dv: "dict_index doms other = Inr dvals"
      using dict_index_key [of other doms] by auto
    let ?d = "dict_set doms other (sort_key snd (dvals @ removed))"
    have k: "map fst ?d = map fst doms" using Cons.prems e by (simp add: keys_dict_set_present)
    have "fst ` set rest \<subseteq> fst ` set ?d" using Cons.prems by (auto simp: dom_dict_set)
    from Cons.IH [OF this] obtain doms' where "restore_loop rest ?d = Inr doms'" "map fst doms' = map fst ?d"
      by blast
    then show ?thesis using e False dv k by simp
  qed
qed

lemma restore_loop_sat:
  "doms_sat P doms \<Longrightarrow> doms_sat P snap \<Longrightarrow> restore_loop snap doms = Inr doms' \<Longrightarrow> doms_sat P doms'"
proof (induction snap arbitrary: doms)
  case Nil
  then show ?case by simp
next
  case (Cons e rest)
  obtain other removed where e: "e = (other, removed)" by (cases e)
  have srest: "doms_sat P rest" using Cons.prems(2) by (simp add: doms_sat_def)
  have rem: "\<forall>v \<in> set removed. P other v" using Cons.prems(2) e by (simp add: doms_sat_def)
  show ?case
  proof (cases "removed = []")
    case True
    then show ?thesis using Cons e srest by simp
  next
    case False
    with Cons.prems(3) e obtain dvals where dv: "dict_index doms other = Inr dvals"
      by (auto split: sum.splits)
    then have look: "map_of doms other = Some dvals" by (simp add: dict_index_Inr)
    let ?d = "dict_set doms other (sort_key snd (dvals @ removed))"
    have "\<forall>v \<in> set dvals. P other v" using doms_sat_lookup [OF Cons.prems(1) look] by blast
    then have "doms_sat P ?d" using Cons.prems(1) rem by (intro doms_sat_set) auto
    moreover have "restore_loop rest ?d = Inr doms'" using Cons.prems(3) e False dv by simp
    ultimately show ?thesis using Cons.IH srest by blast
  qed
qed

lemma place_simps:
  "assigned (place var v st) = dict_set (assigned st) var v"
  "capacity_map (place var v st) = dict_set (capacity_map st) v (dict_get (capacity_map st) v 0 + 1)"
  "domains (place var v st) = domains st"
  by (simp_all add: place_def)

lemma forward_check_props:
  "\<exists>st2 snap f. forward_check dc st = Inr (st2, snap, f) \<and>
     assigned st2 = assigned st \<and> capacity_map st2 = capacity_map st \<and>
     map fst (domains st2) = map fst (domains st) \<and> fst ` set snap \<subseteq> fst ` set (domains st)"
proof -
  have "set (map fst (domains st)) \<subseteq> fst ` set (domains st)" by simp
  from forward_check_loop_keys [OF this, of dc "assigned st" "capacity_map st" "[]"]
  obtain doms' snap' f where
    "forward_check_loop dc (assigned st) (capacity_map st) (map fst (domains st)) (domains st) [] =
       Inr (doms', snap', f)"
    "map fst doms' = map fst (domains st)" "fst ` set snap' \<subseteq> fst ` set (domains st)" by auto
  then show ?thesis by (simp add: forward_check_def)
qed

lemma undo_props:
  assumes "assigned st3 = dict_set asg var v" "var \<notin> fst ` set asg"
    and "capacity_map st3 = dict_set cm v (dict_get cm v 0 + 1)" "cm_ok cm"
    and "fst ` set snap \<subseteq> fst ` set (domains st3)"
  shows "\<exists>st4. undo var v snap st3 = Inr st4 \<and> assigned st4 = asg \<and> capacity_map st4 = cm \<and>
           map fst (domains st4) = map fst (domains st3)"
proof -
  from restore_loop_keys [OF assms(5)] obtain doms' where
    "restore_loop snap (domains st3) = Inr doms'" "map fst doms' = map fst (domains st3)" by blast
  then show ?thesis
    using assms(1,3) dict_del_set_new [OF assms(2), of v] decrement_place [OF assms(4), of v]
    by (simp add: undo_def)
qed

text \<open>What one iteration of the loop over \<open>domain_vals\<close> does, case by case.\<close>

lemma try_values_skip:
  "dict_get (capacity_map st) v 0 \<ge> dict_get dc (fst v) 1 \<Longrightarrow>
   try_values dc pm n var (v # vals) st = try_values dc pm n var vals st"
  by simp

lemma try_values_found:
  "\<not> dict_get (capacity_map st) v 0 \<ge> dict_get dc (fst v) 1 \<Longrightarrow>
   forward_check dc (place var v st) = Inr (st2, snap, failure) \<Longrightarrow>
   explore dc pm n st2 failure = Some (Inr (Some a, st3)) \<Longrightarrow>
   try_values dc pm n var (v # vals) st = Some (Inr (Some a, st3))"
  by (simp add: explore_def)

lemma try_values_undo:
  "\<not> dict_get (capacity_map st) v 0 \<ge> dict_get dc (fst v) 1 \<Longrightarrow>
   forward_check dc (place var v st) = Inr (st2, snap, failure) \<Longrightarrow>
   explore dc pm n st2 failure = Some (Inr (None, st3)) \<Longrightarrow>
   undo var v snap st3 = Inr st4 \<Longrightarrow>
   try_values dc pm n var (v # vals) st = try_values dc pm n var vals st4"
  by (simp add: explore_def)

lemma try_values_explore_cases:
  assumes "\<not> dict_get (capacity_map st) v 0 \<ge> dict_get dc (fst v) 1"
    and "forward_check dc (place var v st) = Inr (st2, snap, failure)"
    and "try_values dc pm n var (v # vals) st = Some (Inr (r, st'))"
  obtains r2 st3 where "explore dc pm n st2 failure = Some (Inr (r2, st3))"
proof (cases "explore dc pm n st2 failure")
  case None
  then show ?thesis using assms by (simp add: explore_def)
next
  case (Some x)
  then show ?thesis using assms that by (cases x) (auto simp: explore_def)
qed

lemma try_values_frame:
  assumes bt: "\<And>st r st'. cm_ok (capacity_map st) \<Longrightarrow>
      backtrack dc pm n st = Some (Inr (r, st')) \<Longrightarrow> frame_ok st r st'"
  shows "cm_ok (capacity_map st) \<Longrightarrow> var \<notin> fst ` set (assigned st) \<Longrightarrow>
     try_values dc pm n var vals st = Some (Inr (r, st')) \<Longrightarrow> frame_ok st r st'"
proof (induction vals arbitrary: st)
  case Nil
  then show ?case by (simp add: frame_ok_def)
next
  case (Cons v vals)
  show ?case
  proof (cases "dict_get (capacity_map st) v 0 \<ge> dict_get dc (fst v) 1")
    case True
    then show ?thesis using Cons by simp
  next
    case False
    obtain st2 snap f where fc: "forward_check dc (place var v st) = Inr (st2, snap, f)"
      and a2: "assigned st2 = assigned (place var v st)"
      and c2: "capacity_map st2 = capacity_map (place var v st)"
      and k2: "map fst (domains st2) = map fst (domains (place var v st))"
      and s2: "fst ` set snap \<subseteq> fst ` set (domains (place var v st))"
      using forward_check_props [of dc "place var v st"] by blast
    have ok2: "cm_ok (capacity_map st2)" using c2 Cons.prems(1) by (simp add: place_simps cm_ok_place)
    obtain r2 st3 where ex: "explore dc pm n st2 f = Some (Inr (r2, st3))"
      using try_values_explore_cases [OF False fc Cons.prems(3)] by blast
    have f3: "frame_ok st2 r2 st3"
    proof (cases f)
      case True
      then show ?thesis using ex ok2 by (auto simp: explore_def frame_ok_def)
    next
      case False
      then show ?thesis using ex bt [OF ok2] by (simp add: explore_def)
    qed
    show ?thesis
    proof (cases r2)
      case (Some a)
      then have "try_values dc pm n var (v # vals) st = Some (Inr (Some a, st3))"
        using try_values_found [OF False fc] ex by simp
      then have "r = Some a" "st' = st3" using Cons.prems(3) by simp_all
      then show ?thesis using f3 Some k2 by (auto simp: frame_ok_def place_simps)
    next
      case None
      have a3: "assigned st3 = dict_set (assigned st) var v"
        and c3: "capacity_map st3 = dict_set (capacity_map st) v (dict_get (capacity_map st) v 0 + 1)"
        and k3: "map fst (domains st3) = map fst (domains st)"
        using f3 None a2 c2 k2 by (simp_all add: frame_ok_def place_simps)
      have "fst ` set snap \<subseteq> fst ` set (domains st3)"
        using s2 k3 by (metis place_simps(3) set_map)
      from undo_props [OF a3 Cons.prems(2) c3 Cons.prems(1) this]
      obtain st4 where u: "undo var v snap st3 = Inr st4" and a4: "assigned st4 = assigned st"
        and c4: "capacity_map st4 = capacity_map st"
        and k4: "map fst (domains st4) = map fst (domains st3)" by blast
      have "try_values dc pm n var vals st4 = Some (Inr (r, st'))"
        using try_values_undo [OF False fc _ u] ex None Cons.prems(3) by simp
      then have "frame_ok st4 r st'" using Cons.IH [of st4] a4 c4 Cons.prems(1,2) by simp
      then show ?thesis using a4 c4 k4 k3 by (auto simp: frame_ok_def split: option.splits)
    qed
  qed
qed

text \<open>A call that fails leaves \<open>assigned\<close> and \<open>capacity_map\<close> as they were, and no call
  changes the keys of \<open>domains\<close>.\<close>

lemma backtrack_frame:
  "cm_ok (capacity_map st) \<Longrightarrow> backtrack dc pm n st = Some (Inr (r, st')) \<Longrightarrow> frame_ok st r st'"
proof (induction n arbitrary: st r st')
  case 0
  then show ?case by simp
next
  case (Suc n)
  show ?case
  proof (cases "length (assigned st) = length (domains st)")
    case True
    then show ?thesis using Suc.prems by (auto simp: frame_ok_def)
  next
    case False
    obtain sel where sel: "select_unassigned_var (domains st) (assigned st) pm = Inr sel"
      using select_unassigned_var_total by blast
    show ?thesis
    proof (cases sel)
      case None
      then show ?thesis using Suc.prems False sel by (auto simp: frame_ok_def)
    next
      case (Some var)
      then have fresh: "var \<notin> fst ` set (assigned st)" "var \<in> fst ` set (domains st)"
        using select_unassigned_var_fresh sel by blast+
      then obtain dvals where dv: "dict_index (domains st) var = Inr dvals"
        using dict_index_key [of var "domains st"] by auto
      have "try_values dc pm n var (sort_key snd dvals) st = Some (Inr (r, st'))"
        using Suc.prems(2) False sel Some dv by simp
      from try_values_frame [OF Suc.IH Suc.prems(1) fresh(1) this] show ?thesis by simp
    qed
  qed
qed

section \<open>Invariants of the search\<close>

lemma explore_frame:
  "cm_ok (capacity_map st2) \<Longrightarrow> explore dc pm n st2 f = Some (Inr (r2, st3)) \<Longrightarrow> frame_ok st2 r2 st3"
  using backtrack_frame [of st2 dc pm n r2 st3]
  by (cases f) (auto simp: explore_def frame_ok_def)

lemma explore_Some_iff:
  "explore dc pm n st2 f = Some (Inr (Some a, st3)) \<longleftrightarrow>
     \<not> f \<and> backtrack dc pm n st2 = Some (Inr (Some a, st3))"
  by (simp add: explore_def)

lemma try_values_Cons_cases:
  assumes ok: "cm_ok (capacity_map st)" and fresh: "var \<notin> fst ` set (assigned st)"
    and run: "try_values dc pm n var (v # vals) st = Some (Inr (r, st'))"
  obtains
    (skip) "dict_get (capacity_map st) v 0 \<ge> dict_get dc (fst v) 1"
      "try_values dc pm n var vals st = Some (Inr (r, st'))"
  | (found) st2 snap a where
      "dict_get (capacity_map st) v 0 < dict_get dc (fst v) 1"
      "forward_check dc (place var v st) = Inr (st2, snap, False)"
      "backtrack dc pm n st2 = Some (Inr (Some a, st'))" "r = Some a"
  | (retry) st2 snap f st3 st4 where
      "dict_get (capacity_map st) v 0 < dict_get dc (fst v) 1"
      "forward_check dc (place var v st) = Inr (st2, snap, f)"
      "explore dc pm n st2 f = Some (Inr (None, st3))"
      "undo var v snap st3 = Inr st4"
      "assigned st4 = assigned st" "capacity_map st4 = capacity_map st"
      "map fst (domains st4) = map fst (domains st)"
      "try_values dc pm n var vals st4 = Some (Inr (r, st'))"
proof (cases "dict_get (capacity_map st) v 0 \<ge> dict_get dc (fst v) 1")
  case True
  then show ?thesis using run skip by simp
next
  case False
  obtain st2 snap f where fc: "forward_check dc (place var v st) = Inr (st2, snap, f)"
    and a2: "assigned st2 = assigned (place var v st)"
    and c2: "capacity_map st2 = capacity_map (place var v st)"
    and k2: "map fst (domains st2) = map fst (domains (place var v st))"
    and s2: "fst ` set snap \<subseteq> fst ` set (domains (place var v st))"
    using forward_check_props [of dc "place var v st"] by blast
  have ok2: "cm_ok (capacity_map st2)" using c2 ok by (simp add: place_simps cm_ok_place)
  obtain r2 st3 where ex: "explore dc pm n st2 f = Some (Inr (r2, st3))"
    using try_values_explore_cases [OF False fc run] by blast
  have f3: "frame_ok st2 r2 st3" using explore_frame [OF ok2 ex] .
  show ?thesis
  proof (cases r2)
    case (Some a)
    then have "try_values dc pm n var (v # vals) st = Some (Inr (Some a, st3))"
      using try_values_found [OF False fc] ex by simp
    then have "r = Some a" "st' = st3" using run by simp_all
    moreover have "\<not> f" "backtrack dc pm n st2 = Some (Inr (Some a, st3))"
      using ex Some by (simp_all add: explore_Some_iff)
    ultimately show ?thesis using found [of st2 snap a] False fc by simp
  next
    case None
    have a3: "assigned st3 = dict_set (assigned st) var v"
      and c3: "capacity_map st3 = dict_set (capacity_map st) v (dict_get (capacity_map st) v 0 + 1)"
      and k3: "map fst (domains st3) = map fst (domains st)"
      using f3 None a2 c2 k2 by (simp_all add: frame_ok_def place_simps)
    have "fst ` set snap \<subseteq> fst ` set (domains st3)"
      using s2 k3 by (metis place_simps(3) set_map)
    from undo_props [OF a3 fresh c3 ok this]
    obtain st4 where u: "undo var v snap st3 = Inr st4" and a4: "assigned st4 = assigned st"
      and c4: "capacity_map st4 = capacity_map st"
      and k4: "map fst (domains st4) = map fst (domains st3)" by blast
    have "try_values dc pm n var vals st4 = Some (Inr (r, st'))"
      using try_values_undo [OF False fc _ u] ex None run by simp
    then show ?thesis using retry [of st2 snap f st3 st4] False fc ex None u a4 c4 k4 k3 by simp
  qed
qed

lemma backtrack_Suc_cases:
  assumes run: "backtrack dc pm (Suc n) st = Some (Inr (r, st'))"
  obtains
    (complete) "length (assigned st) = length (domains st)" "r = Some (assigned st)" "st' = st"
  | (none) "length (assigned st) \<noteq> length (domains st)" "r = None" "st' = st"
  | (branch) var dvals where "length (assigned st) \<noteq> length (domains st)"
      "var \<notin> fst ` set (assigned st)" "var \<in> fst ` set (domains st)"
      "map_of (domains st) var = Some dvals"
      "try_values dc pm n var (sort_key snd dvals) st = Some (Inr (r, st'))"
proof (cases "length (assigned st) = length (domains st)")
  case True
  then have "backtrack dc pm (Suc n) st = Some (Inr (Some (assigned st), st))" by simp
  with run have "r = Some (assigned st)" "st' = st" by simp_all
  then show ?thesis using True complete by blast
next
  case False
  obtain sel where sel: "select_unassigned_var (domains st) (assigned st) pm = Inr sel"
    using select_unassigned_var_total by blast
  show ?thesis
  proof (cases sel)
    case None
    then have "backtrack dc pm (Suc n) st = Some (Inr (None, st))" using False sel by simp
    with run have "r = None" "st' = st" by simp_all
    then show ?thesis using False none by blast
  next
    case (Some var)
    then have fresh: "var \<notin> fst ` set (assigned st)" "var \<in> fst ` set (domains st)"
      using select_unassigned_var_fresh sel by blast+
    then obtain dvals where dv: "map_of (domains st) var = Some dvals" "dict_index (domains st) var = Inr dvals"
      using dict_index_key [of var "domains st"] by auto
    have "try_values dc pm n var (sort_key snd dvals) st = Some (Inr (r, st'))"
      using run False sel Some dv by simp
    then show ?thesis using branch [of var dvals] False fresh dv by simp
  qed
qed

text \<open>A property of \<open>assigned\<close> and \<open>capacity_map\<close> that every admitted placement keeps
  holds in the state a successful search returns.\<close>

lemma try_values_success_inv:
  assumes step: "\<And>asg cm var v. I asg cm \<Longrightarrow> cm_ok cm \<Longrightarrow> var \<notin> fst ` set asg \<Longrightarrow> var \<in> set K \<Longrightarrow>
      dict_get cm v 0 < dict_get dc (fst v) 1 \<Longrightarrow>
      I (asg @ [(var, v)]) (dict_set cm v (dict_get cm v 0 + 1))"
    and bt: "\<And>st a st'. I (assigned st) (capacity_map st) \<Longrightarrow> cm_ok (capacity_map st) \<Longrightarrow>
      map fst (domains st) = K \<Longrightarrow> backtrack dc pm n st = Some (Inr (Some a, st')) \<Longrightarrow>
      I (assigned st') (capacity_map st')"
  shows "I (assigned st) (capacity_map st) \<Longrightarrow> cm_ok (capacity_map st) \<Longrightarrow>
     map fst (domains st) = K \<Longrightarrow> var \<notin> fst ` set (assigned st) \<Longrightarrow> var \<in> set K \<Longrightarrow>
     try_values dc pm n var vals st = Some (Inr (Some a, st')) \<Longrightarrow>
     I (assigned st') (capacity_map st')"
proof (induction vals arbitrary: st)
  case Nil
  then show ?case by simp
next
  case (Cons v vals)
  from Cons.prems(2,4,6) show ?case
  proof (cases rule: try_values_Cons_cases)
    case skip
    then show ?thesis using Cons by blast
  next
    case (found st2 snap a')
    obtain st2' snap' f' where "forward_check dc (place var v st) = Inr (st2', snap', f')"
      and a2: "assigned st2' = assigned (place var v st)"
      and c2: "capacity_map st2' = capacity_map (place var v st)"
      and k2: "map fst (domains st2') = map fst (domains (place var v st))"
      using forward_check_props [of dc "place var v st"] by blast
    with found(2) have eq: "st2' = st2" by simp
    have "I (assigned st2) (capacity_map st2)"
      using step [OF Cons.prems(1,2,4,5) found(1)] a2 c2 eq Cons.prems(4)
      by (simp add: place_simps keys_dict_set_new)
    moreover have "cm_ok (capacity_map st2)" using c2 eq Cons.prems(2) by (simp add: place_simps cm_ok_place)
    moreover have "map fst (domains st2) = K" using k2 eq Cons.prems(3) by (simp add: place_simps)
    ultimately show ?thesis using bt found(3) by blast
  next
    case (retry st2 snap f st3 st4)
    then show ?thesis using Cons.IH [of st4] Cons.prems by simp
  qed
qed

lemma backtrack_success_inv:
  assumes step: "\<And>asg cm var v. I asg cm \<Longrightarrow> cm_ok cm \<Longrightarrow> var \<notin> fst ` set asg \<Longrightarrow> var \<in> set K \<Longrightarrow>
      dict_get cm v 0 < dict_get dc (fst v) 1 \<Longrightarrow>
      I (asg @ [(var, v)]) (dict_set cm v (dict_get cm v 0 + 1))"
  shows "I (assigned st) (capacity_map st) \<Longrightarrow> cm_ok (capacity_map st) \<Longrightarrow>
     map fst (domains st) = K \<Longrightarrow> backtrack dc pm n st = Some (Inr (Some a, st')) \<Longrightarrow>
     I (assigned st') (capacity_map st')"
proof (induction n arbitrary: st a st')
  case 0
  then show ?case by simp
next
  case (Suc n)
  from Suc.prems(4) show ?case
  proof (cases rule: backtrack_Suc_cases)
    case complete
    then show ?thesis using Suc.prems by simp
  next
    case none
    then show ?thesis by simp
  next
    case (branch var dvals)
    have "var \<in> set K" using branch(3) Suc.prems(3) by (metis set_map)
    from try_values_success_inv [of I K dc pm n, OF step Suc.IH Suc.prems(1,2,3) branch(2) this branch(5)]
    show ?thesis by simp
  qed
qed

lemma forward_check_sat:
  "forward_check dc st = Inr (st2, snap, f) \<Longrightarrow> doms_sat P (domains st) \<Longrightarrow>
   doms_sat P (domains st2) \<and> doms_sat P snap"
proof -
  assume fc: "forward_check dc st = Inr (st2, snap, f)" and d: "doms_sat P (domains st)"
  from fc have "forward_check_loop dc (assigned st) (capacity_map st) (map fst (domains st)) (domains st) [] =
      Inr (domains st2, snap, f)"
    by (auto simp: forward_check_def split: sum.splits)
  moreover have "doms_sat P []" by (simp add: doms_sat_def)
  ultimately show ?thesis using forward_check_loop_sat [OF d] by blast
qed

lemma forward_check_frame:
  "forward_check dc st = Inr (st2, snap, f) \<Longrightarrow>
   assigned st2 = assigned st \<and> capacity_map st2 = capacity_map st \<and>
   map fst (domains st2) = map fst (domains st) \<and> fst ` set snap \<subseteq> fst ` set (domains st)"
  using forward_check_props [of dc st] by auto

lemma undo_domains:
  "undo var v snap st3 = Inr st4 \<Longrightarrow> restore_loop snap (domains st3) = Inr (domains st4)"
  by (auto simp: undo_def split: sum.splits)

lemma asg_sat_set: "asg_sat P asg \<Longrightarrow> P k v \<Longrightarrow> asg_sat P (dict_set asg k v)"
  using set_dict_set [of asg k v] unfolding asg_sat_def by blast

lemma explore_sat:
  assumes bt: "\<And>st r st'. doms_sat P (domains st) \<Longrightarrow> asg_sat P (assigned st) \<Longrightarrow>
      cm_ok (capacity_map st) \<Longrightarrow> backtrack dc pm n st = Some (Inr (r, st')) \<Longrightarrow>
      doms_sat P (domains st') \<and> asg_sat P (assigned st')"
  shows "doms_sat P (domains st2) \<Longrightarrow> asg_sat P (assigned st2) \<Longrightarrow> cm_ok (capacity_map st2) \<Longrightarrow>
     explore dc pm n st2 f = Some (Inr (r, st3)) \<Longrightarrow>
     doms_sat P (domains st3) \<and> asg_sat P (assigned st3)"
  using bt [of st2 r st3] by (cases f) (auto simp: explore_def)

lemma try_values_sat:
  assumes bt: "\<And>st r st'. doms_sat P (domains st) \<Longrightarrow> asg_sat P (assigned st) \<Longrightarrow>
      cm_ok (capacity_map st) \<Longrightarrow> backtrack dc pm n st = Some (Inr (r, st')) \<Longrightarrow>
      doms_sat P (domains st') \<and> asg_sat P (assigned st')"
  shows "doms_sat P (domains st) \<Longrightarrow> asg_sat P (assigned st) \<Longrightarrow> cm_ok (capacity_map st) \<Longrightarrow>
     var \<notin> fst ` set (assigned st) \<Longrightarrow> \<forall>v \<in> set vals. P var v \<Longrightarrow>
     try_values dc pm n var vals st = Some (Inr (r, st')) \<Longrightarrow>
     doms_sat P (domains st') \<and> asg_sat P (assigned st')"
proof (induction vals arbitrary: st)
  case Nil
  then show ?case by simp
next
  case (Cons v vals)
  have pv: "P var v" and rest: "\<forall>v \<in> set vals. P var v" using Cons.prems(5) by simp_all
  have placed: "forward_check dc (place var v st) = Inr (st2, snap, f) \<Longrightarrow>
      doms_sat P (domains st2) \<and> doms_sat P snap \<and> asg_sat P (assigned st2) \<and> cm_ok (capacity_map st2)"
    for st2 snap f
  proof -
    assume fc: "forward_check dc (place var v st) = Inr (st2, snap, f)"
    have "doms_sat P (domains (place var v st))" using Cons.prems(1) by (simp add: place_simps)
    from forward_check_sat [OF fc this] forward_check_frame [OF fc] show ?thesis
      using Cons.prems(2,3) pv by (simp add: place_simps asg_sat_set cm_ok_place)
  qed
  from Cons.prems(3,4,6) show ?case
  proof (cases rule: try_values_Cons_cases)
    case skip
    then show ?thesis using Cons.IH [of st] Cons.prems rest by blast
  next
    case (found st2 snap a)
    from placed [OF found(2)] bt [of st2 r st'] found(3,4) show ?thesis by simp
  next
    case (retry st2 snap f st3 st4)
    from placed [OF retry(2)] have p2: "doms_sat P (domains st2)" "doms_sat P snap"
      "asg_sat P (assigned st2)" "cm_ok (capacity_map st2)" by simp_all
    from explore_sat [of P dc pm n, OF bt p2(1,3,4) retry(3)] have "doms_sat P (domains st3)" by simp
    from restore_loop_sat [OF this p2(2) undo_domains [OF retry(4)]]
    have "doms_sat P (domains st4)" .
    then show ?thesis using Cons.IH [of st4] retry(5,6,8) Cons.prems(2,3,4) rest by simp
  qed
qed

lemma backtrack_sat:
  "doms_sat P (domains st) \<Longrightarrow> asg_sat P (assigned st) \<Longrightarrow> cm_ok (capacity_map st) \<Longrightarrow>
   backtrack dc pm n st = Some (Inr (r, st')) \<Longrightarrow>
   doms_sat P (domains st') \<and> asg_sat P (assigned st')"
proof (induction n arbitrary: st r st')
  case 0
  then show ?case by simp
next
  case (Suc n)
  from Suc.prems(4) show ?case
  proof (cases rule: backtrack_Suc_cases)
    case complete
    then show ?thesis using Suc.prems by simp
  next
    case none
    then show ?thesis using Suc.prems by simp
  next
    case (branch var dvals)
    have "\<forall>v \<in> set (sort_key snd dvals). P var v"
      using doms_sat_lookup [OF Suc.prems(1) branch(4)] by simp
    from try_values_sat [of P dc pm n, OF Suc.IH Suc.prems(1,2,3) branch(2) this branch(5)]
    show ?thesis by simp
  qed
qed

section \<open>Termination within the fuel\<close>

lemma asg_wf_length: "asg_wf st \<Longrightarrow> length (assigned st) \<le> length (domains st)"
proof -
  assume wf: "asg_wf st"
  then have "distinct (map fst (assigned st))" by (simp add: asg_wf_def)
  from distinct_card [OF this] have "length (assigned st) = card (set (map fst (assigned st)))"
    by simp
  also have "\<dots> \<le> card (set (map fst (domains st)))"
    using wf by (intro card_mono) (auto simp: asg_wf_def)
  also have "\<dots> \<le> length (map fst (domains st))" by (rule card_length)
  finally show ?thesis by simp
qed

lemma asg_wf_place:
  assumes "asg_wf st" "var \<notin> fst ` set (assigned st)" "var \<in> fst ` set (domains st)"
    and "assigned st2 = assigned (place var v st)" "capacity_map st2 = capacity_map (place var v st)"
    and "map fst (domains st2) = map fst (domains (place var v st))"
  shows "asg_wf st2 \<and> length (assigned st2) = Suc (length (assigned st)) \<and>
     length (domains st2) = length (domains st)"
proof -
  have a: "assigned st2 = assigned st @ [(var, v)]" using assms(2,4) by (simp add: place_simps keys_dict_set_new)
  have k: "map fst (domains st2) = map fst (domains st)" using assms(6) by (simp add: place_simps)
  then have "fst ` set (domains st2) = fst ` set (domains st)" by (metis set_map)
  moreover have "length (domains st2) = length (domains st)" using k by (metis length_map)
  ultimately show ?thesis using assms(1,2,3,5) a
    by (auto simp: asg_wf_def place_simps cm_ok_place)
qed

lemma try_values_total:
  assumes bt: "\<And>st. asg_wf st \<Longrightarrow> length (domains st) < n + length (assigned st) \<Longrightarrow>
      \<exists>r st'. backtrack dc pm n st = Some (Inr (r, st'))"
  shows "asg_wf st \<Longrightarrow> var \<notin> fst ` set (assigned st) \<Longrightarrow> var \<in> fst ` set (domains st) \<Longrightarrow>
     length (domains st) < Suc n + length (assigned st) \<Longrightarrow>
     \<exists>r st'. try_values dc pm n var vals st = Some (Inr (r, st'))"
proof (induction vals arbitrary: st)
  case Nil
  then show ?case by simp
next
  case (Cons v vals)
  show ?case
  proof (cases "dict_get (capacity_map st) v 0 \<ge> dict_get dc (fst v) 1")
    case True
    then show ?thesis using Cons by simp
  next
    case False
    have ok: "cm_ok (capacity_map st)" using Cons.prems(1) by (simp add: asg_wf_def)
    obtain st2 snap f where fc: "forward_check dc (place var v st) = Inr (st2, snap, f)"
      using forward_check_props [of dc "place var v st"] by blast
    note fr = forward_check_frame [OF fc]
    from asg_wf_place [OF Cons.prems(1,2,3), of st2 v] fr
    have wf2: "asg_wf st2" and l2: "length (assigned st2) = Suc (length (assigned st))"
      and d2: "length (domains st2) = length (domains st)" by simp_all
    have "\<exists>r2 st3. explore dc pm n st2 f = Some (Inr (r2, st3))"
    proof (cases f)
      case True
      then show ?thesis by (simp add: explore_def)
    next
      case False
      then show ?thesis using bt [OF wf2] l2 d2 Cons.prems(4) by (simp add: explore_def)
    qed
    then obtain r2 st3 where ex: "explore dc pm n st2 f = Some (Inr (r2, st3))" by blast
    have f3: "frame_ok st2 r2 st3" using explore_frame [OF _ ex] wf2 by (simp add: asg_wf_def)
    show ?thesis
    proof (cases r2)
      case (Some a)
      then show ?thesis using try_values_found [OF False fc] ex by simp
    next
      case None
      have a3: "assigned st3 = dict_set (assigned st) var v"
        and c3: "capacity_map st3 = dict_set (capacity_map st) v (dict_get (capacity_map st) v 0 + 1)"
        and k3: "map fst (domains st3) = map fst (domains st)"
        using f3 None fr by (simp_all add: frame_ok_def place_simps)
      have "fst ` set snap \<subseteq> fst ` set (domains st3)"
        using fr k3 by (metis place_simps(3) set_map)
      from undo_props [OF a3 Cons.prems(2) c3 ok this]
      obtain st4 where u: "undo var v snap st3 = Inr st4" and a4: "assigned st4 = assigned st"
        and c4: "capacity_map st4 = capacity_map st"
        and k4: "map fst (domains st4) = map fst (domains st3)" by blast
      have k: "map fst (domains st4) = map fst (domains st)" using k4 k3 by simp
      then have "fst ` set (domains st4) = fst ` set (domains st)" by (metis set_map)
      moreover have "length (domains st4) = length (domains st)" using k by (metis length_map)
      ultimately have "\<exists>r st'. try_values dc pm n var vals st4 = Some (Inr (r, st'))"
        using Cons.IH [of st4] Cons.prems a4 c4 by (simp add: asg_wf_def)
      then show ?thesis using try_values_undo [OF False fc _ u] ex None by simp
    qed
  qed
qed

text \<open>With fuel above the number of unassigned patients a call returns: it neither runs out
  of fuel nor raises.\<close>

lemma backtrack_total:
  "asg_wf st \<Longrightarrow> length (domains st) < n + length (assigned st) \<Longrightarrow>
   \<exists>r st'. backtrack dc pm n st = Some (Inr (r, st'))"
proof (induction n arbitrary: st)
  case 0
  then show ?case using asg_wf_length [of st] by simp
next
  case (Suc n)
  show ?case
  proof (cases "length (assigned st) = length (domains st)")
    case True
    then show ?thesis by simp
  next
    case False
    obtain sel where sel: "select_unassigned_var (domains st) (assigned st) pm = Inr sel"
      using select_unassigned_var_total by blast
    show ?thesis
    proof (cases sel)
      case None
      then show ?thesis using False sel by simp
    next
      case (Some var)
      then have fresh: "var \<notin> fst ` set (assigned st)" "var \<in> fst ` set (domains st)"
        using select_unassigned_var_fresh sel by blast+
      then obtain dvals where dv: "dict_index (domains st) var = Inr dvals"
        using dict_index_key [of var "domains st"] by auto
      from try_values_total [of n dc pm, OF Suc.IH Suc.prems(1) fresh Suc.prems(2)]
      obtain r st' where "try_values dc pm n var (sort_key snd dvals) st = Some (Inr (r, st'))" by blast
      then show ?thesis using False sel Some dv by simp
    qed
  qed
qed

lemma initial_state_simps:
  "domains (initial_state doms) = doms" "assigned (initial_state doms) = []"
  "capacity_map (initial_state doms) = []"
  by (simp_all add: initial_state_def)

lemma backtracking_search_run_total:
  "\<exists>r st'. backtracking_search_run doms dc pm = Some (Inr (r, st'))"
  unfolding backtracking_search_run_def
  by (rule backtrack_total) (simp_all add: asg_wf_def cm_ok_def initial_state_simps)

section \<open>A whole search\<close>

lemma dict_get_set: "dict_get (dict_set d k v) k' dflt = (if k' = k then v else dict_get d k' dflt)"
  by (simp add: dict_get_def map_of_dict_set)

lemma backtracking_search_Some:
  "backtracking_search doms dc pm = Some (Inr r) \<Longrightarrow>
   \<exists>st'. backtracking_search_run doms dc pm = Some (Inr (r, st'))"
  by (cases "backtracking_search_run doms dc pm")
     (auto simp: backtracking_search_def map_sum_def split: sum.splits)

lemma run_frame:
  "backtracking_search_run doms dc pm = Some (Inr (r, st')) \<Longrightarrow> frame_ok (initial_state doms) r st'"
proof -
  assume "backtracking_search_run doms dc pm = Some (Inr (r, st'))"
  then have "backtrack dc pm (Suc (length doms)) (initial_state doms) = Some (Inr (r, st'))"
    unfolding backtracking_search_run_def .
  moreover have "cm_ok (capacity_map (initial_state doms))"
    by (simp add: initial_state_simps cm_ok_def)
  ultimately show ?thesis using backtrack_frame by blast
qed

lemma run_success_inv:
  assumes step: "\<And>asg cm var v. I asg cm \<Longrightarrow> cm_ok cm \<Longrightarrow> var \<notin> fst ` set asg \<Longrightarrow>
      var \<in> set (map fst doms) \<Longrightarrow> dict_get cm v 0 < dict_get dc (fst v) 1 \<Longrightarrow>
      I (asg @ [(var, v)]) (dict_set cm v (dict_get cm v 0 + 1))"
    and init: "I [] []"
    and run: "backtracking_search_run doms dc pm = Some (Inr (Some a, st'))"
  shows "I a (capacity_map st')"
proof -
  have bt: "backtrack dc pm (Suc (length doms)) (initial_state doms) = Some (Inr (Some a, st'))"
    using run unfolding backtracking_search_run_def .
  have i0: "I (assigned (initial_state doms)) (capacity_map (initial_state doms))"
    using init by (simp add: initial_state_simps)
  have c0: "cm_ok (capacity_map (initial_state doms))" by (simp add: initial_state_simps cm_ok_def)
  have k0: "map fst (domains (initial_state doms)) = map fst doms" by (simp add: initial_state_simps)
  have "I (assigned st') (capacity_map st')"
    by (rule backtrack_success_inv [of I "map fst doms" dc, OF step i0 c0 k0 bt])
  moreover have "a = assigned st'" using run_frame [OF run] by (simp add: frame_ok_def)
  ultimately show ?thesis by simp
qed

lemma run_success_keys:
  assumes run: "backtracking_search_run doms dc pm = Some (Inr (Some a, st'))"
  shows "distinct (map fst a) \<and> set (map fst a) = set (map fst doms) \<and> length a = length doms"
proof -
  have len: "length a = length doms"
    using run_frame [OF run] by (simp add: frame_ok_def initial_state_simps) (metis length_map)
  have "distinct (map fst a) \<and> set (map fst a) \<subseteq> set (map fst doms)"
    by (rule run_success_inv [of "\<lambda>asg cm. distinct (map fst asg) \<and> set (map fst asg) \<subseteq> set (map fst doms)",
          OF _ _ run]) auto
  then have d: "distinct (map fst a)" and sub: "set (map fst a) \<subseteq> set (map fst doms)" by simp_all
  have "card (set (map fst doms)) \<le> length (map fst doms)" by (rule card_length)
  also have "\<dots> = length (map fst a)" using len by simp
  also have "\<dots> = card (set (map fst a))" using distinct_card [OF d] by simp
  finally have "set (map fst a) = set (map fst doms)"
    using sub by (intro card_seteq) simp_all
  then show ?thesis using d len by simp
qed

lemma patients_at_snoc:
  "patients_at (asg @ [(var, v)]) k = patients_at asg k + (if v = k then 1 else 0)"
  by (simp add: patients_at_def)

lemma run_success_capacity:
  assumes run: "backtracking_search_run doms dc pm = Some (Inr (Some a, st'))"
  shows "(\<forall>k. dict_get (capacity_map st') k 0 = int (patients_at a k)) \<and>
         (\<forall>k. 0 < patients_at a k \<longrightarrow> int (patients_at a k) \<le> dict_get dc (fst k) 1)"
proof (rule run_success_inv [of "\<lambda>asg cm. (\<forall>k. dict_get cm k 0 = int (patients_at asg k)) \<and>
         (\<forall>k. 0 < patients_at asg k \<longrightarrow> int (patients_at asg k) \<le> dict_get dc (fst k) 1)", OF _ _ run])
  show "(\<forall>k. dict_get [] k 0 = int (patients_at [] k)) \<and>
         (\<forall>k. 0 < patients_at [] k \<longrightarrow> int (patients_at [] k) \<le> dict_get dc (fst k) 1)"
    by (simp add: dict_get_def patients_at_def)
next
  fix asg :: "(patient_id, val) dict" and cm :: "(val, int) dict" and var v
  assume I: "(\<forall>k. dict_get cm k 0 = int (patients_at asg k)) \<and>
         (\<forall>k. 0 < patients_at asg k \<longrightarrow> int (patients_at asg k) \<le> dict_get dc (fst k) 1)"
    and free: "dict_get cm v 0 < dict_get dc (fst v) 1"
  show "(\<forall>k. dict_get (dict_set cm v (dict_get cm v 0 + 1)) k 0 = int (patients_at (asg @ [(var, v)]) k)) \<and>
         (\<forall>k. 0 < patients_at (asg @ [(var, v)]) k \<longrightarrow>
              int (patients_at (asg @ [(var, v)]) k) \<le> dict_get dc (fst k) 1)"
    using I free by (auto simp: dict_get_set patients_at_snoc)
qed

section \<open>Domain construction and the constraints of a patient\<close>

lemma distinct_map_eq:
  "distinct (map f xs) \<Longrightarrow> x \<in> set xs \<Longrightarrow> y \<in> set xs \<Longrightarrow> f x = f y \<Longrightarrow> x = y"
  by (simp add: distinct_map inj_on_def)

lemma run_sat:
  assumes d: "doms_sat P doms" and run: "backtracking_search_run doms dc pm = Some (Inr (Some a, st'))"
  shows "asg_sat P a"
proof -
  have bt: "backtrack dc pm (Suc (length doms)) (initial_state doms) = Some (Inr (Some a, st'))"
    using run unfolding backtracking_search_run_def .
  have d0: "doms_sat P (domains (initial_state doms))" using d by (simp add: initial_state_simps)
  have a0: "asg_sat P (assigned (initial_state doms))" by (simp add: initial_state_simps asg_sat_def)
  have c0: "cm_ok (capacity_map (initial_state doms))" by (simp add: initial_state_simps cm_ok_def)
  from backtrack_sat [OF d0 a0 c0 bt] have "asg_sat P (assigned st')" by simp
  moreover have "a = assigned st'" using run_frame [OF run] by (simp add: frame_ok_def)
  ultimately show ?thesis by simp
qed

lemma build_loop_entries:
  "set (foldl (\<lambda>doms p. dict_set doms (p_id p) (allowed_values p doctors slots)) acc ps) \<subseteq>
     set acc \<union> (\<lambda>p. (p_id p, allowed_values p doctors slots)) ` set ps"
proof (induction ps arbitrary: acc)
  case Nil
  then show ?case by simp
next
  case (Cons p ps)
  show ?case
    using Cons.IH [of "dict_set acc (p_id p) (allowed_values p doctors slots)"]
      set_dict_set [of acc "p_id p" "allowed_values p doctors slots"]
    by auto
qed

lemma build_loop_other:
  "k \<notin> p_id ` set ps \<Longrightarrow>
   map_of (foldl (\<lambda>doms p. dict_set doms (p_id p) (allowed_values p doctors slots)) acc ps) k = map_of acc k"
  by (induction ps arbitrary: acc) (auto simp: map_of_dict_set)

lemma build_loop_lookup:
  "distinct (map p_id ps) \<Longrightarrow> p \<in> set ps \<Longrightarrow>
   map_of (foldl (\<lambda>doms p. dict_set doms (p_id p) (allowed_values p doctors slots)) acc ps) (p_id p) =
     Some (allowed_values p doctors slots)"
proof (induction ps arbitrary: acc)
  case Nil
  then show ?case by simp
next
  case (Cons q ps)
  show ?case
  proof (cases "p = q")
    case True
    then have "p_id p \<notin> p_id ` set ps" using Cons.prems(1) by auto
    from build_loop_other [OF this] True show ?thesis by (simp add: map_of_dict_set)
  next
    case False
    then show ?thesis using Cons by simp
  qed
qed

lemma build_domains_lookup:
  "distinct (map p_id patients) \<Longrightarrow> p \<in> set patients \<Longrightarrow>
   map_of (build_domains patients doctors slots) (p_id p) = Some (allowed_values p doctors slots)"
  unfolding build_domains_def by (rule build_loop_lookup)

lemma build_domains_entry:
  assumes "(k, vs) \<in> set (build_domains patients doctors slots)"
  shows "\<exists>q \<in> set patients. k = p_id q \<and> vs = allowed_values q doctors slots"
proof -
  have "set (build_domains patients doctors slots) \<subseteq>
      (\<lambda>p. (p_id p, allowed_values p doctors slots)) ` set patients"
    using build_loop_entries [of doctors slots "[]" patients]
    unfolding build_domains_def by simp
  then have "(k, vs) \<in> (\<lambda>p. (p_id p, allowed_values p doctors slots)) ` set patients"
    using assms by (rule subsetD)
  then show ?thesis by (elim imageE) (simp, blast)
qed

lemma build_domains_sat:
  assumes "distinct (map p_id patients)"
  shows "doms_sat (\<lambda>k v. \<forall>p \<in> set patients. p_id p = k \<longrightarrow> v \<in> set (allowed_values p doctors slots))
           (build_domains patients doctors slots)"
proof -
  have "v \<in> set (allowed_values p doctors slots)"
    if e: "(k, vs) \<in> set (build_domains patients doctors slots)" and v: "v \<in> set vs"
      and p: "p \<in> set patients" and k: "p_id p = k" for k vs v p
  proof -
    from build_domains_entry [OF e] obtain q where q: "q \<in> set patients" "k = p_id q"
      "vs = allowed_values q doctors slots" by blast
    have "p_id p = p_id q" using k q(2) by simp
    from distinct_map_eq [OF assms p q(1) this] have "p = q" .
    then show ?thesis using v q(3) by simp
  qed
  then show ?thesis unfolding doms_sat_def by blast
qed

lemma allowed_values_iff:
  "(doc, slot) \<in> set (allowed_values p doctors slots) \<longleftrightarrow>
     (\<exists>d \<in> set doctors. \<not> doctor_skipped p d \<and> d_id d = doc) \<and> slot \<in> set slots \<and>
     (pref_list_of p = [] \<or> slot \<in> set (pref_list_of p))"
proof -
  have "(doc, slot) \<in> set (allowed_values p doctors slots) \<longleftrightarrow>
     (\<exists>d \<in> set doctors. (doc, slot) \<in> set (if doctor_skipped p d then []
        else map (\<lambda>slot. (d_id d, slot))
               (filter (\<lambda>slot. \<not> (pref_list_of p \<noteq> [] \<and> slot \<notin> set (pref_list_of p))) slots)))"
    unfolding allowed_values_def Let_def set_concat set_map by blast
  also have "\<dots> \<longleftrightarrow> (\<exists>d \<in> set doctors. \<not> doctor_skipped p d \<and> d_id d = doc \<and> slot \<in> set slots \<and>
     (pref_list_of p = [] \<or> slot \<in> set (pref_list_of p)))"
  proof (intro bex_cong refl)
    fix d
    show "(doc, slot) \<in> set (if doctor_skipped p d then []
        else map (\<lambda>slot. (d_id d, slot))
               (filter (\<lambda>slot. \<not> (pref_list_of p \<noteq> [] \<and> slot \<notin> set (pref_list_of p))) slots)) \<longleftrightarrow>
      (\<not> doctor_skipped p d \<and> d_id d = doc \<and> slot \<in> set slots \<and>
     (pref_list_of p = [] \<or> slot \<in> set (pref_list_of p)))"
      by (cases "doctor_skipped p d") (simp_all add: image_iff, blast)
  qed
  also have "\<dots> \<longleftrightarrow> (\<exists>d \<in> set doctors. \<not> doctor_skipped p d \<and> d_id d = doc) \<and> slot \<in> set slots \<and>
     (pref_list_of p = [] \<or> slot \<in> set (pref_list_of p))"
    by blast
  finally show ?thesis .
qed

lemma doctor_skipped_specialist:
  "needs_specialist p \<noteq> 0 \<Longrightarrow> specialty_required p = Some req \<Longrightarrow> req \<noteq> [] \<Longrightarrow>
   \<not> doctor_skipped p d \<longleftrightarrow> (\<exists>sp. specialty d = Some sp \<and> sp \<noteq> [] \<and> lower sp = lower req)"
proof -
  assume a: "needs_specialist p \<noteq> 0" "specialty_required p = Some req" "req \<noteq> []"
  show ?thesis
  proof (cases "specialty d")
    case None
    then show ?thesis using a by (simp add: doctor_skipped_def)
  next
    case (Some sp)
    then show ?thesis using a by (simp add: doctor_skipped_def)
  qed
qed

lemma pref_list_of_example: "pref_list_of example_patient = [''09:30'', ''10:00'']"
  by code_simp

lemma lower_example: "lower ''Cardiology'' = ''cardiology''"
  by code_simp

section \<open>A patient without candidates\<close>

lemma snap_spares_set:
  "snap_spares q snap \<Longrightarrow> (k = q \<Longrightarrow> removed = []) \<Longrightarrow> snap_spares q (dict_set snap k removed)"
  using set_dict_set [of snap k removed] unfolding snap_spares_def by blast

lemma forward_check_loop_keeps_empty:
  "map_of doms q = Some [] \<Longrightarrow> snap_spares q snap \<Longrightarrow>
   forward_check_loop dc asg cm ks doms snap = Inr (doms', snap', f) \<Longrightarrow>
   map_of doms' q = Some [] \<and> snap_spares q snap'"
proof (induction ks arbitrary: doms snap)
  case Nil
  then show ?case by simp
next
  case (Cons other rest)
  show ?case
  proof (cases "dict_mem asg other")
    case True
    then show ?thesis using Cons by simp
  next
    case False
    with Cons.prems(3) obtain dvals where dv: "dict_index doms other = Inr dvals"
      by (auto split: sum.splits)
    then have look: "map_of doms other = Some dvals" by (simp add: dict_index_Inr)
    let ?new = "filter (\<lambda>v. \<not> saturated dc cm v) dvals"
    let ?snap = "dict_set snap other (filter (saturated dc cm) dvals)"
    have "other = q \<Longrightarrow> dvals = []" using look Cons.prems(1) by simp
    then have s1: "snap_spares q ?snap" using Cons.prems(2) by (intro snap_spares_set) auto
    show ?thesis
    proof (cases "?new = []")
      case True
      then show ?thesis using False dv Cons.prems s1 by (auto simp: Let_def)
    next
      case ne: False
      then have "other \<noteq> q" using look Cons.prems(1) by auto
      then have d1: "map_of (dict_set doms other ?new) q = Some []"
        using Cons.prems(1) by (simp add: map_of_dict_set)
      have "forward_check_loop dc asg cm rest (dict_set doms other ?new) ?snap = Inr (doms', snap', f)"
        using ne False dv Cons.prems(3) by (simp add: Let_def)
      from Cons.IH [OF d1 s1 this] show ?thesis .
    qed
  qed
qed

lemma forward_check_loop_fails:
  "q \<in> set ks \<Longrightarrow> \<not> dict_mem asg q \<Longrightarrow> map_of doms q = Some [] \<Longrightarrow>
   forward_check_loop dc asg cm ks doms snap = Inr (doms', snap', f) \<Longrightarrow> f"
proof (induction ks arbitrary: doms snap)
  case Nil
  then show ?case by simp
next
  case (Cons other rest)
  show ?case
  proof (cases "dict_mem asg other")
    case True
    then have "other \<noteq> q" using Cons.prems(2) by auto
    then show ?thesis using True Cons by simp
  next
    case False
    with Cons.prems(4) obtain dvals where dv: "dict_index doms other = Inr dvals"
      by (auto split: sum.splits)
    then have look: "map_of doms other = Some dvals" by (simp add: dict_index_Inr)
    let ?new = "filter (\<lambda>v. \<not> saturated dc cm v) dvals"
    let ?snap = "dict_set snap other (filter (saturated dc cm) dvals)"
    show ?thesis
    proof (cases "?new = []")
      case True
      then show ?thesis using False dv Cons.prems(4) by (auto simp: Let_def)
    next
      case ne: False
      then have oq: "other \<noteq> q" using look Cons.prems(3) by auto
      then have d1: "map_of (dict_set doms other ?new) q = Some []"
        using Cons.prems(3) by (simp add: map_of_dict_set)
      have q: "q \<in> set rest" using Cons.prems(1) oq by simp
      have "forward_check_loop dc asg cm rest (dict_set doms other ?new) ?snap = Inr (doms', snap', f)"
        using ne False dv Cons.prems(4) by (simp add: Let_def)
      from Cons.IH [OF q Cons.prems(2) d1 this] show ?thesis .
    qed
  qed
qed

lemma restore_loop_keeps_empty:
  "map_of doms q = Some [] \<Longrightarrow> snap_spares q snap \<Longrightarrow> restore_loop snap doms = Inr doms' \<Longrightarrow>
   map_of doms' q = Some []"
proof (induction snap arbitrary: doms)
  case Nil
  then show ?case by simp
next
  case (Cons e rest)
  obtain other removed where e: "e = (other, removed)" by (cases e)
  have srest: "snap_spares q rest" using Cons.prems(2) by (simp add: snap_spares_def)
  show ?case
  proof (cases "removed = []")
    case True
    then show ?thesis using Cons e srest by simp
  next
    case False
    then have oq: "other \<noteq> q" using Cons.prems(2) e by (simp add: snap_spares_def)
    from False Cons.prems(3) e obtain dvals where dv: "dict_index doms other = Inr dvals"
      by (auto split: sum.splits)
    let ?d = "dict_set doms other (sort_key snd (dvals @ removed))"
    have "map_of ?d q = Some []" using oq Cons.prems(1) by (simp add: map_of_dict_set)
    moreover have "restore_loop rest ?d = Inr doms'" using Cons.prems(3) e False dv by simp
    ultimately show ?thesis using Cons.IH srest by blast
  qed
qed

lemma forward_check_empty_domain:
  assumes "forward_check dc st = Inr (st2, snap, f)" "map_of (domains st) q = Some []"
    "q \<notin> fst ` set (assigned st)"
  shows "f \<and> map_of (domains st2) q = Some [] \<and> snap_spares q snap"
proof -
  from assms(1) have l: "forward_check_loop dc (assigned st) (capacity_map st) (map fst (domains st))
      (domains st) [] = Inr (domains st2, snap, f)"
    by (auto simp: forward_check_def split: sum.splits)
  have "q \<in> set (map fst (domains st))"
    using assms(2) by (metis domI dom_map_of_conv_image_fst set_map)
  moreover have "\<not> dict_mem (assigned st) q" using assms(3) by (simp add: dict_mem_iff)
  ultimately have f using forward_check_loop_fails [OF _ _ assms(2) l] by blast
  moreover have "snap_spares q []" by (simp add: snap_spares_def)
  ultimately show ?thesis using forward_check_loop_keeps_empty [OF assms(2) _ l] by blast
qed

text \<open>While another patient has no candidate left, no value of \<open>var\<close> survives forward
  checking: the loop fails without a recursive call, whatever the fuel.\<close>

lemma try_values_empty_domain:
  "cm_ok (capacity_map st) \<Longrightarrow> var \<notin> fst ` set (assigned st) \<Longrightarrow>
   map_of (domains st) q = Some [] \<Longrightarrow> q \<notin> fst ` set (assigned st) \<Longrightarrow> q \<noteq> var \<Longrightarrow>
   \<exists>st'. try_values dc pm n var vals st = Some (Inr (None, st'))"
proof (induction vals arbitrary: st)
  case Nil
  then show ?case by simp
next
  case (Cons v vals)
  show ?case
  proof (cases "dict_get (capacity_map st) v 0 \<ge> dict_get dc (fst v) 1")
    case True
    then show ?thesis using Cons by simp
  next
    case False
    obtain st2 snap f where fc: "forward_check dc (place var v st) = Inr (st2, snap, f)"
      using forward_check_props [of dc "place var v st"] by blast
    note fr = forward_check_frame [OF fc]
    have "q \<notin> fst ` set (assigned (place var v st))"
      using Cons.prems(4,5) by (simp add: place_simps dom_dict_set)
    from forward_check_empty_domain [OF fc _ this] Cons.prems(3)
    have f: f and e2: "map_of (domains st2) q = Some []" and sp: "snap_spares q snap"
      by (simp_all add: place_simps)
    have ex: "explore dc pm n st2 f = Some (Inr (None, st2))" using f by (simp add: explore_def)
    have a3: "assigned st2 = dict_set (assigned st) var v"
      and c3: "capacity_map st2 = dict_set (capacity_map st) v (dict_get (capacity_map st) v 0 + 1)"
      using fr by (simp_all add: place_simps)
    have "fst ` set snap \<subseteq> fst ` set (domains st2)"
      using fr by (metis place_simps(3) set_map)
    from undo_props [OF a3 Cons.prems(2) c3 Cons.prems(1) this]
    obtain st4 where u: "undo var v snap st2 = Inr st4" and a4: "assigned st4 = assigned st"
      and c4: "capacity_map st4 = capacity_map st" by blast
    have "map_of (domains st4) q = Some []"
      using restore_loop_keeps_empty [OF e2 sp undo_domains [OF u]] .
    then have "\<exists>st'. try_values dc pm n var vals st4 = Some (Inr (None, st'))"
      using Cons.IH [of st4] Cons.prems a4 c4 by simp
    then show ?thesis using try_values_undo [OF False fc ex u] by simp
  qed
qed

lemma backtrack_empty_domain:
  assumes "cm_ok (capacity_map st)" "map_of (domains st) q = Some []" "q \<notin> fst ` set (assigned st)"
    and "length (assigned st) \<noteq> length (domains st)"
  shows "\<exists>st'. backtrack dc pm (Suc n) st = Some (Inr (None, st'))"
proof -
  obtain sel where sel: "select_unassigned_var (domains st) (assigned st) pm = Inr sel"
    using select_unassigned_var_total by blast
  show ?thesis
  proof (cases sel)
    case None
    then show ?thesis using assms(4) sel by simp
  next
    case (Some var)
    then have fresh: "var \<notin> fst ` set (assigned st)" "var \<in> fst ` set (domains st)"
      using select_unassigned_var_fresh sel by blast+
    then obtain dvals where dv: "map_of (domains st) var = Some dvals"
      "dict_index (domains st) var = Inr dvals"
      using dict_index_key [of var "domains st"] by auto
    have "\<exists>st'. try_values dc pm n var (sort_key snd dvals) st = Some (Inr (None, st'))"
    proof (cases "var = q")
      case True
      then have "dvals = []" using dv(1) assms(2) by simp
      then show ?thesis by simp
    next
      case False
      then show ?thesis using try_values_empty_domain [OF assms(1) fresh(1) assms(2,3)] by blast
    qed
    then show ?thesis using assms(4) sel Some dv(2) by simp
  qed
qed

section \<open>One doctor, one patient, two slots\<close>

lemma build_domains_single:
  "specialty_required p = None \<Longrightarrow> preferred_slots p = None \<Longrightarrow>
   build_domains [p] [d] [s1, s2] = [(p_id p, [(d_id d, s1), (d_id d, s2)])]"
  by (simp add: build_domains_def dict_set_def allowed_values_def doctor_skipped_def pref_list_of_def)

lemma sort_two: "sort_key snd [(a, s1), (a, s2 :: slot)] =
   (if s1 \<le> s2 then [(a, s1), (a, s2)] else [(a, s2), (a, s1)])"
  by simp

lemma search_single:
  "backtracking_search [(pid, [(doc, s1), (doc, s2)])] [(doc, 1)] pm = Some (Inr (Some [(pid, (doc, min s1 s2))]))"
proof -
  let ?st = "initial_state [(pid, [(doc, s1), (doc, s2)])]"
  have sel: "select_unassigned_var (domains ?st) (assigned ?st) pm = Inr (Some pid)"
    by (simp add: select_unassigned_var_def pool_of_def unassigned_of_def initial_state_def
        dict_mem_def dict_index_def Let_def)
  have idx: "dict_index (domains ?st) pid = Inr [(doc, s1), (doc, s2)]"
    by (simp add: initial_state_def dict_index_def)
  have "try_values [(doc, 1)] pm (Suc 0) pid ((doc, s) # rest) ?st =
      Some (Inr (Some [(pid, (doc, s))],
        \<lparr>domains = [(pid, [(doc, s1), (doc, s2)])], assigned = [(pid, (doc, s))],
         capacity_map = [((doc, s), 1)]\<rparr>))" for s rest
    by (simp add: initial_state_def dict_get_def place_def dict_set_def forward_check_def dict_mem_def)
  then have "try_values [(doc, 1)] pm (Suc 0) pid (sort_key snd [(doc, s1), (doc, s2)]) ?st =
      Some (Inr (Some [(pid, (doc, min s1 s2))],
        \<lparr>domains = [(pid, [(doc, s1), (doc, s2)])], assigned = [(pid, (doc, min s1 s2))],
         capacity_map = [((doc, min s1 s2), 1)]\<rparr>))"
    by (simp add: min_def)
  then show ?thesis
    using sel idx
    by (simp add: backtracking_search_def backtracking_search_run_def initial_state_simps)
qed

text \<open>Lines 291 to 294: without doctors or without patients nothing is scheduled.\<close>

lemma schedule_search_no_doctors: "schedule_search patients [] slots = Some (Inr None)"
  by (simp add: schedule_search_def)

lemma schedule_search_no_patients: "schedule_search [] doctors slots = Some (Inr None)"
  by (simp add: schedule_search_def)

section \<open>A specialist flag without a specialty\<close>

lemma doctor_skipped_missing:
  "specialty_required p = None \<or> specialty_required p = Some [] \<Longrightarrow> \<not> doctor_skipped p d"
  by (auto simp: doctor_skipped_def)

lemma pref_list_of_flag: "pref_list_of (p\<lparr>needs_specialist := 0\<rparr>) = pref_list_of p"
  by (simp add: pref_list_of_def)

section \<open>The capacity tracker at the undo step\<close>

lemma decrement_present:
  "map_of cm k = Some c \<Longrightarrow> decrement_plain cm k = Some (decrement cm k)"
  by (simp add: decrement_plain_def decrement_def dict_get_def dict_set_def delete_update_same)

text \<open>Forward checking only removes candidates: a domain it leaves is the domain it found,
  or that domain without the saturated pairs.\<close>

lemma forward_check_loop_shrinks:
  "forward_check_loop dc asg cm ks doms snap = Inr (doms', snap', f) \<Longrightarrow>
   map_of doms' k = Some vs' \<Longrightarrow>
   \<exists>vs. map_of doms k = Some vs \<and> (vs' = vs \<or> vs' = filter (\<lambda>v. \<not> saturated dc cm v) vs)"
proof (induction ks arbitrary: doms snap)
  case Nil
  then show ?case by simp
next
  case (Cons other rest)
  show ?case
  proof (cases "dict_mem asg other")
    case True
    then show ?thesis using Cons by simp
  next
    case False
    with Cons.prems(1) obtain dvals where dv: "dict_index doms other = Inr dvals"
      by (auto split: sum.splits)
    then have look: "map_of doms other = Some dvals" by (simp add: dict_index_Inr)
    let ?new = "filter (\<lambda>v. \<not> saturated dc cm v) dvals"
    let ?snap = "dict_set snap other (filter (saturated dc cm) dvals)"
    show ?thesis
    proof (cases "?new = []")
      case True
      then show ?thesis using False dv Cons.prems by (auto simp: Let_def)
    next
      case ne: False
      then have "forward_check_loop dc asg cm rest (dict_set doms other ?new) ?snap = Inr (doms', snap', f)"
        using False dv Cons.prems(1) by (simp add: Let_def)
      from Cons.IH [OF this Cons.prems(2)] obtain vs where
        vs: "map_of (dict_set doms other ?new) k = Some vs"
          "vs' = vs \<or> vs' = filter (\<lambda>v. \<not> saturated dc cm v) vs" by blast
      show ?thesis
      proof (cases "k = other")
        case True
        then have "vs = ?new" using vs(1) by (simp add: map_of_dict_set)
        then show ?thesis using vs(2) look True by auto
      next
        case False
        then show ?thesis using vs by (simp add: map_of_dict_set)
      qed
    qed
  qed
qed

lemma forward_check_shrinks:
  assumes "forward_check dc st = Inr (st2, snap, f)" "map_of (domains st2) k = Some vs'"
  shows "\<exists>vs. map_of (domains st) k = Some vs \<and>
     (vs' = vs \<or> vs' = filter (\<lambda>v. \<not> saturated dc (capacity_map st) v) vs)"
proof -
  from assms(1) have "forward_check_loop dc (assigned st) (capacity_map st) (map fst (domains st))
      (domains st) [] = Inr (domains st2, snap, f)"
    by (auto simp: forward_check_def split: sum.splits)
  from forward_check_loop_shrinks [OF this assms(2)] show ?thesis .
qed

section \<open>Undoing forward checking\<close>

lemma forward_check_loop_untouched:
  "forward_check_loop dc asg cm ks doms snap = Inr (doms', snap', f) \<Longrightarrow> k \<notin> set ks \<Longrightarrow>
   map_of doms' k = map_of doms k \<and> map_of snap' k = map_of snap k"
proof (induction ks arbitrary: doms snap)
  case Nil
  then show ?case by simp
next
  case (Cons other rest)
  have ko: "k \<noteq> other" and kr: "k \<notin> set rest" using Cons.prems(2) by simp_all
  show ?case
  proof (cases "dict_mem asg other")
    case True
    then show ?thesis using Cons kr by simp
  next
    case False
    with Cons.prems(1) obtain dvals where dv: "dict_index doms other = Inr dvals"
      by (auto split: sum.splits)
    let ?new = "filter (\<lambda>v. \<not> saturated dc cm v) dvals"
    let ?snap = "dict_set snap other (filter (saturated dc cm) dvals)"
    show ?thesis
    proof (cases "?new = []")
      case True
      then show ?thesis using False dv Cons.prems(1) ko by (auto simp: Let_def map_of_dict_set)
    next
      case ne: False
      then have "forward_check_loop dc asg cm rest (dict_set doms other ?new) ?snap = Inr (doms', snap', f)"
        using False dv Cons.prems(1) by (simp add: Let_def)
      from Cons.IH [OF this kr] show ?thesis using ko by (simp add: map_of_dict_set)
    qed
  qed
qed

lemma forward_check_loop_entry:
  assumes "forward_check_loop dc asg cm ks doms snap = Inr (doms', snap', f)"
    and "distinct ks" "map_of doms k = Some vs" "map_of snap k = None"
  shows "(map_of doms' k = Some vs \<and> map_of snap' k = None) \<or>
     (filter (\<lambda>v. \<not> saturated dc cm v) vs \<noteq> [] \<and>
        map_of doms' k = Some (filter (\<lambda>v. \<not> saturated dc cm v) vs) \<and>
        map_of snap' k = Some (filter (saturated dc cm) vs)) \<or>
     (filter (\<lambda>v. \<not> saturated dc cm v) vs = [] \<and> f \<and>
        map_of doms' k = Some vs \<and> map_of snap' k = Some (filter (saturated dc cm) vs))"
  using assms
proof (induction ks arbitrary: doms snap)
  case Nil
  then show ?case by simp
next
  case (Cons other rest)
  have dr: "distinct rest" and onr: "other \<notin> set rest" using Cons.prems(2) by simp_all
  show ?case
  proof (cases "dict_mem asg other")
    case True
    then show ?thesis using Cons.IH [OF _ dr Cons.prems(3,4)] Cons.prems(1) by simp
  next
    case False
    with Cons.prems(1) obtain dvals where dv: "dict_index doms other = Inr dvals"
      by (auto split: sum.splits)
    then have look: "map_of doms other = Some dvals" by (simp add: dict_index_Inr)
    let ?new = "filter (\<lambda>v. \<not> saturated dc cm v) dvals"
    let ?snap = "dict_set snap other (filter (saturated dc cm) dvals)"
    show ?thesis
    proof (cases "?new = []")
      case True
      then have r: "doms' = doms" "snap' = ?snap" "f"
        using False dv Cons.prems(1) by (auto simp: Let_def)
      show ?thesis
      proof (cases "k = other")
        case True
        then have "dvals = vs" using look Cons.prems(3) by simp
        then show ?thesis using r True \<open>?new = []\<close> Cons.prems(3) by (simp add: map_of_dict_set)
      next
        case False
        then show ?thesis using r Cons.prems(3,4) by (simp add: map_of_dict_set)
      qed
    next
      case ne: False
      then have run: "forward_check_loop dc asg cm rest (dict_set doms other ?new) ?snap = Inr (doms', snap', f)"
        using False dv Cons.prems(1) by (simp add: Let_def)
      show ?thesis
      proof (cases "k = other")
        case True
        then have eq: "dvals = vs" using look Cons.prems(3) by simp
        have "k \<notin> set rest" using True onr by simp
        from forward_check_loop_untouched [OF run this]
        show ?thesis using True eq ne by (simp add: map_of_dict_set)
      next
        case False
        then have "map_of (dict_set doms other ?new) k = Some vs" "map_of ?snap k = None"
          using Cons.prems(3,4) by (simp_all add: map_of_dict_set)
        from Cons.IH [OF run dr this] show ?thesis .
      qed
    qed
  qed
qed

lemma restore_loop_untouched:
  "restore_loop snap doms = Inr doms' \<Longrightarrow> k \<notin> fst ` set snap \<Longrightarrow> map_of doms' k = map_of doms k"
proof (induction snap arbitrary: doms)
  case Nil
  then show ?case by simp
next
  case (Cons e rest)
  obtain other removed where e: "e = (other, removed)" by (cases e)
  have ko: "k \<noteq> other" and kr: "k \<notin> fst ` set rest" using Cons.prems(2) e by auto
  show ?case
  proof (cases "removed = []")
    case True
    then show ?thesis using Cons e kr by simp
  next
    case False
    with Cons.prems(1) e obtain dvals where dv: "dict_index doms other = Inr dvals"
      by (auto split: sum.splits)
    let ?d = "dict_set doms other (sort_key snd (dvals @ removed))"
    have "restore_loop rest ?d = Inr doms'" using Cons.prems(1) e False dv by simp
    from Cons.IH [OF this kr] show ?thesis using ko by (simp add: map_of_dict_set)
  qed
qed

lemma restore_loop_entry:
  assumes "restore_loop snap doms = Inr doms'" "distinct (map fst snap)"
    and "map_of doms k = Some vs"
  shows "map_of doms' k =
     (case map_of snap k of
        None \<Rightarrow> Some vs
      | Some removed \<Rightarrow> if removed \<noteq> [] then Some (sort_key snd (vs @ removed)) else Some vs)"
  using assms
proof (induction snap arbitrary: doms)
  case Nil
  then show ?case by simp
next
  case (Cons e rest)
  obtain other removed where e: "e = (other, removed)" by (cases e)
  have dr: "distinct (map fst rest)" and onr: "other \<notin> fst ` set rest"
    using Cons.prems(2) e by auto
  show ?case
  proof (cases "removed = []")
    case True
    then have run: "restore_loop rest doms = Inr doms'" using Cons.prems(1) e by simp
    show ?thesis
    proof (cases "k = other")
      case True
      then have "k \<notin> fst ` set rest" using onr by simp
      from restore_loop_untouched [OF run this] show ?thesis
        using True e \<open>removed = []\<close> Cons.prems(3) by simp
    next
      case False
      then show ?thesis using Cons.IH [OF run dr Cons.prems(3)] e by simp
    qed
  next
    case False
    with Cons.prems(1) e obtain dvals where dv: "dict_index doms other = Inr dvals"
      by (auto split: sum.splits)
    then have look: "map_of doms other = Some dvals" by (simp add: dict_index_Inr)
    let ?d = "dict_set doms other (sort_key snd (dvals @ removed))"
    have run: "restore_loop rest ?d = Inr doms'" using Cons.prems(1) e False dv by simp
    show ?thesis
    proof (cases "k = other")
      case True
      then have "k \<notin> fst ` set rest" using onr by simp
      from restore_loop_untouched [OF run this] show ?thesis
        using True e False look Cons.prems(3) by (simp add: map_of_dict_set)
    next
      case ko: False
      then have "map_of ?d k = Some vs" using Cons.prems(3) by (simp add: map_of_dict_set)
      from Cons.IH [OF run dr this] show ?thesis using ko e by simp
    qed
  qed
qed

lemma forward_check_loop_snap_distinct:
  "forward_check_loop dc asg cm ks doms snap = Inr (doms', snap', f) \<Longrightarrow>
   distinct (map fst snap) \<Longrightarrow> distinct (map fst snap')"
proof (induction ks arbitrary: doms snap)
  case Nil
  then show ?case by simp
next
  case (Cons other rest)
  show ?case
  proof (cases "dict_mem asg other")
    case True
    then show ?thesis using Cons by simp
  next
    case False
    with Cons.prems(1) obtain dvals where dv: "dict_index doms other = Inr dvals"
      by (auto split: sum.splits)
    let ?new = "filter (\<lambda>v. \<not> saturated dc cm v) dvals"
    let ?snap = "dict_set snap other (filter (saturated dc cm) dvals)"
    have ds: "distinct (map fst ?snap)" using Cons.prems(2) by (simp add: dict_set_def distinct_update)
    show ?thesis
    proof (cases "?new = []")
      case True
      then show ?thesis using False dv Cons.prems(1) ds by (auto simp: Let_def)
    next
      case ne: False
      then have "forward_check_loop dc asg cm rest (dict_set doms other ?new) ?snap = Inr (doms', snap', f)"
        using False dv Cons.prems(1) by (simp add: Let_def)
      from Cons.IH [OF this ds] show ?thesis .
    qed
  qed
qed

lemma filter_none_removed: "filter P xs = [] \<Longrightarrow> filter (\<lambda>x. \<not> P x) xs = xs"
  by (induction xs) (auto split: if_splits)

text \<open>The patient at which forward checking breaks off keeps its list, since line 257 leaves
  the loop before line 259, while its snapshot entry holds the whole list: undo appends the list
  to itself.  Here the domain of patient 3 comes back doubled, and stays so to the end of the
  search.\<close>

lemma undo_doubles_emptied_domain:
  "forward_check [(1, 1), (2, 1)] (place 1 (1, ''09:00'') (initial_state tied_domains)) =
     Inr (\<lparr>domains = [(1, [(1, ''09:00'')]), (2, [(2, ''09:00'')]), (3, [(1, ''09:00'')])],
            assigned = [(1, (1, ''09:00''))], capacity_map = [((1, ''09:00''), 1)]\<rparr>,
          [(2, [(1, ''09:00'')]), (3, [(1, ''09:00'')])], True) \<and>
   undo 1 (1, ''09:00'') [(2, [(1, ''09:00'')]), (3, [(1, ''09:00'')])]
     \<lparr>domains = [(1, [(1, ''09:00'')]), (2, [(2, ''09:00'')]), (3, [(1, ''09:00'')])],
      assigned = [(1, (1, ''09:00''))], capacity_map = [((1, ''09:00''), 1)]\<rparr> =
     Inr \<lparr>domains = [(1, [(1, ''09:00'')]), (2, [(2, ''09:00''), (1, ''09:00'')]),
                     (3, [(1, ''09:00''), (1, ''09:00'')])],
          assigned = [], capacity_map = []\<rparr> \<and>
   backtracking_search_run tied_domains [(1, 1), (2, 1)] [] =
     Some (Inr (None,
       \<lparr>domains = [(1, [(1, ''09:00'')]), (2, [(2, ''09:00''), (1, ''09:00'')]),
                   (3, [(1, ''09:00''), (1, ''09:00'')])],
        assigned = [], capacity_map = []\<rparr>))"
  by code_simp

section \<open>What a failed call leaves in the domains\<close>

lemma same_elems_refl: "same_elems d d"
  by (simp add: same_elems_def)

lemma same_elems_trans: "same_elems d d' \<Longrightarrow> same_elems d' d'' \<Longrightarrow> same_elems d d''"
  unfolding same_elems_def by metis

lemma keys_lookup:
  "map fst d' = map fst d \<Longrightarrow> map_of d k = Some vs \<Longrightarrow> \<exists>vs'. map_of d' k = Some vs'"
proof -
  assume e: "map fst d' = map fst d" and l: "map_of d k = Some vs"
  then have "k \<in> set (map fst d)" by (metis domI dom_map_of_conv_image_fst set_map)
  then have "k \<in> fst ` set d'" using e by (metis set_map)
  then show ?thesis by (metis domD dom_map_of_conv_image_fst)
qed

text \<open>What undo does to the domain of one patient, whatever the recursive call left there.\<close>

lemma undo_entry:
  assumes fc: "forward_check dc (place var v st) = Inr (st2, snap, failure)"
    and u: "undo var v snap st3 = Inr st4"
    and d: "distinct (map fst (domains st))"
    and k: "map_of (domains st) k = Some vs"
    and k3: "map_of (domains st3) k = Some vs3"
  shows "\<exists>vs2 vs4. map_of (domains st2) k = Some vs2 \<and> map_of (domains st4) k = Some vs4 \<and>
     (vs2 = vs \<or> vs2 = filter (\<lambda>x. \<not> saturated dc (capacity_map (place var v st)) x) vs) \<and>
     (vs4 = vs3 \<or> vs4 = sort_key snd (vs3 @ filter (saturated dc (capacity_map (place var v st))) vs)) \<and>
     (set vs3 = set vs2 \<longrightarrow> set vs4 = set vs) \<and>
     (map_of snap k = None \<or> filter (\<lambda>x. \<not> saturated dc (capacity_map (place var v st)) x) vs \<noteq> [] \<or> vs = [] \<longrightarrow>
        (mset vs3 = mset vs2 \<longrightarrow> mset vs4 = mset vs) \<and>
        (vs3 = vs2 \<longrightarrow>
           vs4 = vs \<or>
           filter (saturated dc (capacity_map (place var v st))) vs \<noteq> [] \<and>
           vs4 = sort_key snd (filter (\<lambda>x. \<not> saturated dc (capacity_map (place var v st)) x) vs @
                                filter (saturated dc (capacity_map (place var v st))) vs)))"
proof -
  let ?cm = "capacity_map (place var v st)"
  let ?keep = "filter (\<lambda>x. \<not> saturated dc ?cm x) vs"
  let ?gone = "filter (saturated dc ?cm) vs"
  from fc have l: "forward_check_loop dc (assigned (place var v st)) ?cm (map fst (domains st))
      (domains st) [] = Inr (domains st2, snap, failure)"
    by (auto simp: forward_check_def place_simps split: sum.splits)
  have ds: "distinct (map fst snap)" using forward_check_loop_snap_distinct [OF l] by simp
  have r: "restore_loop snap (domains st3) = Inr (domains st4)" using undo_domains [OF u] .
  note re = restore_loop_entry [OF r ds k3]
  have parts: "set ?keep \<union> set ?gone = set vs" by auto
  have mparts: "mset ?keep + mset ?gone = mset vs" by simp
  from forward_check_loop_entry [OF l d k] have
    "(map_of (domains st2) k = Some vs \<and> map_of snap k = None) \<or>
     (?keep \<noteq> [] \<and> map_of (domains st2) k = Some ?keep \<and> map_of snap k = Some ?gone) \<or>
     (?keep = [] \<and> failure \<and> map_of (domains st2) k = Some vs \<and> map_of snap k = Some ?gone)"
    by simp
  then show ?thesis
  proof (elim disjE conjE)
    assume a: "map_of (domains st2) k = Some vs" "map_of snap k = None"
    have "map_of (domains st4) k = Some vs3" using re a(2) by simp
    then show ?thesis using a by simp
  next
    assume a: "?keep \<noteq> []" "map_of (domains st2) k = Some ?keep" "map_of snap k = Some ?gone"
    show ?thesis
    proof (cases "?gone = []")
      case True
      then have kv: "?keep = vs" by (rule filter_none_removed)
      have "map_of (domains st4) k = Some vs3" using re a(3) True by simp
      then show ?thesis using a(2) kv by simp
    next
      case False
      have v4: "map_of (domains st4) k = Some (sort_key snd (vs3 @ ?gone))" using re a(3) False by simp
      have s: "set vs3 = set ?keep \<Longrightarrow> set (sort_key snd (vs3 @ ?gone)) = set vs"
        using parts by simp
      have m: "mset vs3 = mset ?keep \<Longrightarrow> mset (sort_key snd (vs3 @ ?gone)) = mset vs"
        using mparts by simp
      show ?thesis
      proof (intro exI conjI)
        show "map_of (domains st2) k = Some ?keep" by (rule a(2))
        show "map_of (domains st4) k = Some (sort_key snd (vs3 @ ?gone))" by (rule v4)
        show "?keep = vs \<or> ?keep = ?keep" by simp
        show "sort_key snd (vs3 @ ?gone) = vs3 \<or> sort_key snd (vs3 @ ?gone) = sort_key snd (vs3 @ ?gone)"
          by simp
        show "set vs3 = set ?keep \<longrightarrow> set (sort_key snd (vs3 @ ?gone)) = set vs" using s by blast
        show "map_of snap k = None \<or> ?keep \<noteq> [] \<or> vs = [] \<longrightarrow>
          (mset vs3 = mset ?keep \<longrightarrow> mset (sort_key snd (vs3 @ ?gone)) = mset vs) \<and>
          (vs3 = ?keep \<longrightarrow> sort_key snd (vs3 @ ?gone) = vs \<or>
             ?gone \<noteq> [] \<and> sort_key snd (vs3 @ ?gone) = sort_key snd (?keep @ ?gone))"
          using m False by blast
      qed
    qed
  next
    assume a: "?keep = []" "map_of (domains st2) k = Some vs" "map_of snap k = Some ?gone"
    have gv: "?gone = vs" using a(1) by (simp add: filter_empty_conv filter_id_conv)
    show ?thesis
    proof (cases "vs = []")
      case True
      then have "map_of (domains st4) k = Some vs3" using re a(3) by simp
      then show ?thesis using a(2) True by simp
    next
      case False
      have v4: "map_of (domains st4) k = Some (sort_key snd (vs3 @ ?gone))"
        using re a(3) gv False by simp
      have s: "set vs3 = set vs \<Longrightarrow> set (sort_key snd (vs3 @ ?gone)) = set vs" using gv by simp
      show ?thesis
      proof (intro exI conjI)
        show "map_of (domains st2) k = Some vs" by (rule a(2))
        show "map_of (domains st4) k = Some (sort_key snd (vs3 @ ?gone))" by (rule v4)
        show "vs = vs \<or> vs = ?keep" by simp
        show "sort_key snd (vs3 @ ?gone) = vs3 \<or> sort_key snd (vs3 @ ?gone) = sort_key snd (vs3 @ ?gone)"
          by simp
        show "set vs3 = set vs \<longrightarrow> set (sort_key snd (vs3 @ ?gone)) = set vs" using s by blast
        show "map_of snap k = None \<or> ?keep \<noteq> [] \<or> vs = [] \<longrightarrow>
          (mset vs3 = mset vs \<longrightarrow> mset (sort_key snd (vs3 @ ?gone)) = mset vs) \<and>
          (vs3 = vs \<longrightarrow> sort_key snd (vs3 @ ?gone) = vs \<or>
             ?gone \<noteq> [] \<and> sort_key snd (vs3 @ ?gone) = sort_key snd (?keep @ ?gone))"
          using a(1,3) False by simp
      qed
    qed
  qed
qed

lemma undo_entry_elems:
  assumes fc: "forward_check dc (place var v st) = Inr (st2, snap, failure)"
    and u: "undo var v snap st3 = Inr st4"
    and d: "distinct (map fst (domains st))"
    and k: "map_of (domains st) k = Some vs"
    and k3: "map_of (domains st3) k = Some vs3"
  shows "\<exists>vs2 vs4. map_of (domains st2) k = Some vs2 \<and> map_of (domains st4) k = Some vs4 \<and>
     (set vs3 = set vs2 \<longrightarrow> set vs4 = set vs)"
  using undo_entry [OF assms]
  by (elim exE conjE) (rule exI, rule exI, intro conjI; assumption)

lemma same_elemsD:
  "same_elems d d' \<Longrightarrow> map_of d k = Some vs \<Longrightarrow> \<exists>vs'. map_of d' k = Some vs' \<and> set vs' = set vs"
  unfolding same_elems_def by (elim allE impE) assumption+

lemma undo_site_elems:
  assumes ok: "cm_ok (capacity_map st)" and d: "distinct (map fst (domains st))"
    and fc: "forward_check dc (place var v st) = Inr (st2, snap, f)"
    and ex: "explore dc pm n st2 f = Some (Inr (None, st3))"
    and rec: "same_elems (domains st2) (domains st3)"
    and u: "undo var v snap st3 = Inr st4"
  shows "same_elems (domains st) (domains st4)"
  unfolding same_elems_def
proof (intro allI impI)
  fix k vs
  assume k: "map_of (domains st) k = Some vs"
  note fr = forward_check_frame [OF fc]
  have ok2: "cm_ok (capacity_map st2)" using fr ok by (simp add: place_simps cm_ok_place)
  have "map fst (domains st3) = map fst (domains st)"
    using explore_frame [OF ok2 ex] fr by (simp add: frame_ok_def place_simps)
  from keys_lookup [OF this k] obtain vs3 where k3: "map_of (domains st3) k = Some vs3" by (elim exE)
  from undo_entry_elems [OF fc u d k k3] obtain vs2 vs4 where
    e1: "map_of (domains st2) k = Some vs2" and e2: "map_of (domains st4) k = Some vs4"
      and e3: "set vs3 = set vs2 \<longrightarrow> set vs4 = set vs" by (elim exE conjE)
  from same_elemsD [OF rec e1] obtain vs' where v1: "map_of (domains st3) k = Some vs'" and v2: "set vs' = set vs2"
    by (elim exE conjE)
  from v1 k3 have "vs' = vs3" by simp
  with v2 have "set vs3 = set vs2" by simp
  with e3 have "set vs4 = set vs" by (rule mp)
  with e2 show "\<exists>vs'. map_of (domains st4) k = Some vs' \<and> set vs' = set vs" by (intro exI conjI)
qed

lemma explore_keeps_elems:
  assumes bt: "\<And>st st'. cm_ok (capacity_map st) \<Longrightarrow> distinct (map fst (domains st)) \<Longrightarrow>
      backtrack dc pm n st = Some (Inr (None, st')) \<Longrightarrow> same_elems (domains st) (domains st')"
    and "cm_ok (capacity_map st2)" "distinct (map fst (domains st2))"
    and "explore dc pm n st2 f = Some (Inr (None, st3))"
  shows "same_elems (domains st2) (domains st3)"
proof (cases f)
  case True
  then have "st3 = st2" using assms(4) by (simp add: explore_def)
  then show ?thesis by (simp only: same_elems_refl)
next
  case False
  then have "backtrack dc pm n st2 = Some (Inr (None, st3))" using assms(4) by (simp add: explore_def)
  from bt [OF assms(2,3) this] show ?thesis .
qed

lemma try_values_keeps_elems:
  assumes bt: "\<And>st st'. cm_ok (capacity_map st) \<Longrightarrow> distinct (map fst (domains st)) \<Longrightarrow>
      backtrack dc pm n st = Some (Inr (None, st')) \<Longrightarrow> same_elems (domains st) (domains st')"
  shows "cm_ok (capacity_map st) \<Longrightarrow> var \<notin> fst ` set (assigned st) \<Longrightarrow>
     distinct (map fst (domains st)) \<Longrightarrow>
     try_values dc pm n var vals st = Some (Inr (None, st')) \<Longrightarrow>
     same_elems (domains st) (domains st')"
proof (induction vals arbitrary: st)
  case Nil
  then show ?case by (simp add: same_elems_refl)
next
  case (Cons v vals)
  from Cons.prems(1,2,4) show ?case
  proof (cases rule: try_values_Cons_cases)
    case skip
    show ?thesis using Cons.IH [OF Cons.prems(1,2,3) skip(2)] .
  next
    case (found st2 snap a)
    from found(4) show ?thesis by simp
  next
    case (retry st2 snap f st3 st4)
    note fr = forward_check_frame [OF retry(2)]
    have ok2: "cm_ok (capacity_map st2)" using fr Cons.prems(1) by (simp add: place_simps cm_ok_place)
    have d2: "distinct (map fst (domains st2))" using fr Cons.prems(3) by (simp add: place_simps)
    have rec: "same_elems (domains st2) (domains st3)"
      using explore_keeps_elems [of dc pm n, OF bt ok2 d2 retry(3)] .
    have s4: "same_elems (domains st) (domains st4)"
      using undo_site_elems [OF Cons.prems(1,3) retry(2,3) rec retry(4)] .
    have ok4: "cm_ok (capacity_map st4)" using retry(6) Cons.prems(1) by simp
    have f4: "var \<notin> fst ` set (assigned st4)" using retry(5) Cons.prems(2) by simp
    have d4: "distinct (map fst (domains st4))" using retry(7) Cons.prems(3) by simp
    have "same_elems (domains st4) (domains st')" using Cons.IH [OF ok4 f4 d4 retry(8)] .
    with s4 show ?thesis by (rule same_elems_trans)
  qed
qed

text \<open>A call that fails leaves every domain with the set of pairs it had.\<close>

lemma backtrack_keeps_elems:
  "cm_ok (capacity_map st) \<Longrightarrow> distinct (map fst (domains st)) \<Longrightarrow>
   backtrack dc pm n st = Some (Inr (None, st')) \<Longrightarrow> same_elems (domains st) (domains st')"
proof (induction n arbitrary: st st')
  case 0
  then show ?case by simp
next
  case (Suc n)
  from Suc.prems(3) show ?case
  proof (cases rule: backtrack_Suc_cases)
    case complete
    from complete(2) show ?thesis by simp
  next
    case none
    from none(3) show ?thesis by (simp add: same_elems_refl)
  next
    case (branch var dvals)
    have ih: "cm_ok (capacity_map s) \<Longrightarrow> distinct (map fst (domains s)) \<Longrightarrow>
      backtrack dc pm n s = Some (Inr (None, s')) \<Longrightarrow> same_elems (domains s) (domains s')" for s s'
      by (rule Suc.IH)
    show ?thesis
      by (rule try_values_keeps_elems [of dc pm n, OF ih Suc.prems(1) branch(2) Suc.prems(2) branch(5)])
  qed
qed

section \<open>The search over a heap of lists\<close>

lemma map_of_deref: "map_of (deref_dict h d) k = map_option (\<lambda>a. h ! a) (map_of d k)"
  unfolding deref_dict_def by (induction d) auto

lemma dict_index_deref:
  "dict_index (deref_dict h d) k = (case dict_index d k of Inl e \<Rightarrow> Inl e | Inr a \<Rightarrow> Inr (h ! a))"
  by (simp add: dict_index_def map_of_deref split: option.splits)

lemma keys_deref [simp]: "map fst (deref_dict h d) = map fst d"
  unfolding deref_dict_def by (induction d) auto

lemma length_deref [simp]: "length (deref_dict h d) = length d"
  by (simp add: deref_dict_def)

lemma map_update_values:
  "map (\<lambda>(k, a). (k, g a)) (AList.update k' a' d) = AList.update k' (g a') (map (\<lambda>(k, a). (k, g a)) d)"
  by (induction d) auto

lemma deref_cong: "\<forall>a \<in> snd ` set d. h' ! a = h ! a \<Longrightarrow> deref_dict h' d = deref_dict h d"
  unfolding deref_dict_def by (induction d) auto

lemma values_update: "snd ` set (AList.update k a d) \<subseteq> insert a (snd ` set d)"
  by (induction d) auto

lemma distinct_values_update:
  "distinct (map snd d) \<Longrightarrow> a \<notin> snd ` set d \<Longrightarrow> distinct (map snd (AList.update k a d))"
proof (induction d)
  case Nil
  then show ?case by simp
next
  case (Cons e d)
  have "snd e \<notin> snd ` set (AList.update k a d)"
    using values_update [of k a d] Cons.prems by auto
  then show ?case using Cons by auto
qed

lemma deref_bind_new:
  assumes "refs_ok N h d"
  shows "deref_dict (h @ [new]) (dict_set d k (length h)) = dict_set (deref_dict h d) k new"
proof -
  have "deref_dict (h @ [new]) (dict_set d k (length h)) =
      AList.update k ((h @ [new]) ! length h) (deref_dict (h @ [new]) d)"
    unfolding deref_dict_def dict_set_def by (rule map_update_values)
  moreover have "deref_dict (h @ [new]) d = deref_dict h d"
    using assms by (intro deref_cong) (auto simp: refs_ok_def nth_append)
  ultimately show ?thesis by (simp add: dict_set_def)
qed

lemma refs_ok_bind_new:
  assumes "refs_ok N h d"
  shows "refs_ok N (h @ [new]) (dict_set d k (length h))"
proof -
  have fresh: "length h \<notin> snd ` set d" using assms by (auto simp: refs_ok_def)
  have "distinct (map snd (dict_set d k (length h)))"
    unfolding dict_set_def using assms fresh by (intro distinct_values_update) (simp_all add: refs_ok_def)
  moreover have "\<forall>a \<in> snd ` set (dict_set d k (length h)). N \<le> a \<and> a < length (h @ [new])"
    using values_update [of k "length h" d] assms unfolding dict_set_def refs_ok_def by fastforce
  ultimately show ?thesis using assms by (simp add: refs_ok_def)
qed

lemma map_write_values:
  "distinct (map snd d) \<Longrightarrow> map_of d k = Some a \<Longrightarrow>
   map (\<lambda>(k', a'). (k', if a' = a then y else g a')) d = AList.update k y (map (\<lambda>(k', a'). (k', g a')) d)"
proof (induction d)
  case Nil
  then show ?case by simp
next
  case (Cons e d)
  obtain k0 a0 where e: "e = (k0, a0)" by (cases e)
  show ?case
  proof (cases "k0 = k")
    case True
    then have a0: "a0 = a" using Cons.prems(2) e by simp
    then have "a \<notin> snd ` set d" using Cons.prems(1) e by auto
    then have "map (\<lambda>(k', a'). (k', if a' = a then y else g a')) d = map (\<lambda>(k', a'). (k', g a')) d"
      by (intro map_cong) force+
    then show ?thesis using True a0 e by simp
  next
    case False
    then have look: "map_of d k = Some a" using Cons.prems(2) e by simp
    then have "(k, a) \<in> set d" by (rule map_of_SomeD)
    then have "a \<in> snd ` set d" by force
    then have "a0 \<noteq> a" using Cons.prems(1) e by auto
    then show ?thesis using False e Cons.IH look Cons.prems(1) by simp
  qed
qed

lemma deref_write:
  assumes "refs_ok N h d" "map_of d k = Some a"
  shows "deref_dict (h[a := ys]) d = dict_set (deref_dict h d) k ys"
proof -
  have "(k, a) \<in> set d" using assms(2) by (rule map_of_SomeD)
  then have "a \<in> snd ` set d" by force
  then have lt: "a < length h" using assms(1) by (auto simp: refs_ok_def)
  have "deref_dict (h[a := ys]) d = map (\<lambda>(k', a'). (k', if a' = a then ys else h ! a')) d"
    unfolding deref_dict_def using lt by (intro map_cong) (auto simp: nth_list_update)
  also have "\<dots> = AList.update k ys (map (\<lambda>(k', a'). (k', h ! a')) d)"
    using assms by (intro map_write_values) (simp_all add: refs_ok_def)
  finally show ?thesis by (simp add: dict_set_def deref_dict_def)
qed

lemma refs_ok_write: "refs_ok N h d \<Longrightarrow> refs_ok N (h[a := ys]) d"
  by (simp add: refs_ok_def)

lemma take_write:
  assumes "refs_ok N h d" "map_of d k = Some a"
  shows "take N (h[a := ys]) = take N h"
proof -
  have "(k, a) \<in> set d" using assms(2) by (rule map_of_SomeD)
  then have "a \<in> snd ` set d" by force
  then have "N \<le> a" using assms(1) by (auto simp: refs_ok_def)
  then show ?thesis by simp
qed

lemma take_bind_new: "refs_ok N h d \<Longrightarrow> take N (h @ [new]) = take N h"
  by (simp add: refs_ok_def)

lemma forward_check_loop_sim:
  "refs_ok N h d \<Longrightarrow>
   (case forward_check_loop_ref dc asg cm ks h d snap of
      Inl e \<Rightarrow> forward_check_loop dc asg cm ks (deref_dict h d) snap = Inl e
    | Inr (h', d', snap', f) \<Rightarrow>
        forward_check_loop dc asg cm ks (deref_dict h d) snap = Inr (deref_dict h' d', snap', f) \<and>
        refs_ok N h' d' \<and> take N h' = take N h)"
proof (induction ks arbitrary: h d snap)
  case Nil
  then show ?case by simp
next
  case (Cons other rest)
  show ?case
  proof (cases "dict_mem asg other")
    case True
    then show ?thesis using Cons.IH [OF Cons.prems, of snap] by (auto split: sum.splits)
  next
    case False
    show ?thesis
    proof (cases "dict_index d other")
      case (Inl e)
      then show ?thesis using False by (simp add: dict_index_deref)
    next
      case (Inr a)
      let ?new = "filter (\<lambda>v. \<not> saturated dc cm v) (h ! a)"
      let ?snap = "dict_set snap other (filter (saturated dc cm) (h ! a))"
      have pure: "dict_index (deref_dict h d) other = Inr (h ! a)" using Inr by (simp add: dict_index_deref)
      show ?thesis
      proof (cases "?new = []")
        case True
        then show ?thesis using False Inr pure Cons.prems by (simp add: Let_def)
      next
        case ne: False
        have ok: "refs_ok N (h @ [?new]) (dict_set d other (length h))"
          using refs_ok_bind_new [OF Cons.prems] .
        have dd: "deref_dict (h @ [?new]) (dict_set d other (length h)) = dict_set (deref_dict h d) other ?new"
          using deref_bind_new [OF Cons.prems] .
        have tk: "take N (h @ [?new]) = take N h" using take_bind_new [OF Cons.prems] .
        have r: "forward_check_loop_ref dc asg cm (other # rest) h d snap =
            forward_check_loop_ref dc asg cm rest (h @ [?new]) (dict_set d other (length h)) ?snap"
          using False Inr ne by (simp add: Let_def)
        have p: "forward_check_loop dc asg cm (other # rest) (deref_dict h d) snap =
            forward_check_loop dc asg cm rest (dict_set (deref_dict h d) other ?new) ?snap"
          using False pure ne by (simp add: Let_def)
        show ?thesis using Cons.IH [OF ok, of ?snap] unfolding r p dd tk .
      qed
    qed
  qed
qed

lemma restore_loop_sim:
  "refs_ok N h d \<Longrightarrow>
   (case restore_loop_ref snap d h of
      Inl e \<Rightarrow> restore_loop snap (deref_dict h d) = Inl e
    | Inr h' \<Rightarrow> restore_loop snap (deref_dict h d) = Inr (deref_dict h' d) \<and>
        refs_ok N h' d \<and> take N h' = take N h)"
proof (induction snap arbitrary: h)
  case Nil
  then show ?case by simp
next
  case (Cons e rest)
  obtain other removed where e: "e = (other, removed)" by (cases e)
  show ?case
  proof (cases "removed = []")
    case True
    then show ?thesis using Cons.IH [OF Cons.prems] e by (auto split: sum.splits)
  next
    case False
    show ?thesis
    proof (cases "dict_index d other")
      case (Inl err)
      then show ?thesis using False e by (simp add: dict_index_deref)
    next
      case (Inr a)
      then have look: "map_of d other = Some a" by (simp add: dict_index_Inr)
      let ?ys = "sort_key snd (h ! a @ removed)"
      have pure: "dict_index (deref_dict h d) other = Inr (h ! a)" using Inr by (simp add: dict_index_deref)
      have ok: "refs_ok N (h[a := ?ys]) d" using refs_ok_write [OF Cons.prems] .
      have dd: "deref_dict (h[a := ?ys]) d = dict_set (deref_dict h d) other ?ys"
        using deref_write [OF Cons.prems look] .
      have tk: "take N (h[a := ?ys]) = take N h" using take_write [OF Cons.prems look] .
      have r: "restore_loop_ref (e # rest) d h = restore_loop_ref rest d (h[a := ?ys])"
        using False Inr e by simp
      have p: "restore_loop (e # rest) (deref_dict h d) =
          restore_loop rest (dict_set (deref_dict h d) other ?ys)"
        using False pure e by simp
      show ?thesis using Cons.IH [OF ok] unfolding r p dd tk .
    qed
  qed
qed

lemma view_simps:
  "domains (view rs) = deref_dict (r_heap rs) (r_domains rs)"
  "assigned (view rs) = r_assigned rs" "capacity_map (view rs) = r_capacity_map rs"
  by (simp_all add: view_def)

lemma place_ref_simps:
  "r_heap (place_ref var v rs) = r_heap rs" "r_domains (place_ref var v rs) = r_domains rs"
  "view (place_ref var v rs) = place var v (view rs)"
  by (simp_all add: place_ref_def place_def view_def)

lemma forward_check_sim:
  assumes "refs_ok N (r_heap rs) (r_domains rs)"
  shows "(case forward_check_ref dc rs of
      Inl e \<Rightarrow> forward_check dc (view rs) = Inl e
    | Inr (rs2, snap, f) \<Rightarrow>
        forward_check dc (view rs) = Inr (view rs2, snap, f) \<and>
        refs_ok N (r_heap rs2) (r_domains rs2) \<and> take N (r_heap rs2) = take N (r_heap rs))"
  using forward_check_loop_sim [OF assms, of dc "r_assigned rs" "r_capacity_map rs"
      "map fst (r_domains rs)" "[]"]
  by (auto simp: forward_check_ref_def forward_check_def view_def split: sum.splits)

lemma undo_sim:
  assumes "refs_ok N (r_heap rs) (r_domains rs)"
  shows "(case undo_ref var v snap rs of
      Inl e \<Rightarrow> undo var v snap (view rs) = Inl e
    | Inr rs4 \<Rightarrow>
        undo var v snap (view rs) = Inr (view rs4) \<and>
        refs_ok N (r_heap rs4) (r_domains rs4) \<and> take N (r_heap rs4) = take N (r_heap rs))"
  using restore_loop_sim [OF assms, of snap]
  by (auto simp: undo_ref_def undo_def view_def split: sum.splits)

lemma sim_out_trans:
  "sim_out N rs' out_ref out \<Longrightarrow> take N (r_heap rs') = take N (r_heap rs) \<Longrightarrow> sim_out N rs out_ref out"
  by (auto simp: sim_out_def split: option.splits sum.splits)

lemma try_values_ref_unfold:
  "\<not> dict_get (r_capacity_map rs) v 0 \<ge> dict_get dc (fst v) 1 \<Longrightarrow>
   forward_check_ref dc (place_ref var v rs) = Inr (rs2, snap, f) \<Longrightarrow>
   try_values_ref dc pm n var (v # vals) rs =
     (case explore_ref dc pm n rs2 f of
        None \<Rightarrow> None
      | Some (Inl e) \<Rightarrow> Some (Inl e)
      | Some (Inr (Some result, rs3)) \<Rightarrow> Some (Inr (Some result, rs3))
      | Some (Inr (None, rs3)) \<Rightarrow>
          (case undo_ref var v snap rs3 of
             Inl e \<Rightarrow> Some (Inl e)
           | Inr rs4 \<Rightarrow> try_values_ref dc pm n var vals rs4))"
  by (simp add: explore_ref_def)

lemma try_values_unfold:
  "\<not> dict_get (capacity_map st) v 0 \<ge> dict_get dc (fst v) 1 \<Longrightarrow>
   forward_check dc (place var v st) = Inr (st2, snap, f) \<Longrightarrow>
   try_values dc pm n var (v # vals) st =
     (case explore dc pm n st2 f of
        None \<Rightarrow> None
      | Some (Inl e) \<Rightarrow> Some (Inl e)
      | Some (Inr (Some result, st3)) \<Rightarrow> Some (Inr (Some result, st3))
      | Some (Inr (None, st3)) \<Rightarrow>
          (case undo var v snap st3 of
             Inl e \<Rightarrow> Some (Inl e)
           | Inr st4 \<Rightarrow> try_values dc pm n var vals st4))"
  by (simp add: explore_def)

lemma explore_sim:
  assumes bt: "\<And>rs. refs_ok N (r_heap rs) (r_domains rs) \<Longrightarrow>
      sim_out N rs (backtrack_ref dc pm n rs) (backtrack dc pm n (view rs))"
    and ok: "refs_ok N (r_heap rs2) (r_domains rs2)"
  shows "sim_out N rs2 (explore_ref dc pm n rs2 f) (explore dc pm n (view rs2) f)"
proof (cases f)
  case True
  then show ?thesis using ok by (simp add: explore_ref_def explore_def sim_out_def)
next
  case False
  then show ?thesis using bt [OF ok] by (simp add: explore_ref_def explore_def)
qed

lemma sim_out_None: "sim_out N rs None out \<longleftrightarrow> out = None"
  by (simp add: sim_out_def)

lemma sim_out_Inl: "sim_out N rs (Some (Inl e)) out \<longleftrightarrow> out = Some (Inl e)"
  by (simp add: sim_out_def)

lemma sim_out_Inr:
  "sim_out N rs (Some (Inr (r, rs'))) out \<longleftrightarrow>
     out = Some (Inr (r, view rs')) \<and> refs_ok N (r_heap rs') (r_domains rs') \<and>
     take N (r_heap rs') = take N (r_heap rs)"
  by (simp add: sim_out_def)

lemma try_values_sim:
  assumes bt: "\<And>rs. refs_ok N (r_heap rs) (r_domains rs) \<Longrightarrow>
      sim_out N rs (backtrack_ref dc pm n rs) (backtrack dc pm n (view rs))"
  shows "refs_ok N (r_heap rs) (r_domains rs) \<Longrightarrow>
     sim_out N rs (try_values_ref dc pm n var vals rs) (try_values dc pm n var vals (view rs))"
proof (induction vals arbitrary: rs)
  case Nil
  then show ?case by (simp add: sim_out_Inr)
next
  case (Cons v vals)
  show ?case
  proof (cases "dict_get (r_capacity_map rs) v 0 \<ge> dict_get dc (fst v) 1")
    case True
    then have "try_values_ref dc pm n var (v # vals) rs = try_values_ref dc pm n var vals rs"
      "try_values dc pm n var (v # vals) (view rs) = try_values dc pm n var vals (view rs)"
      by (simp_all add: view_simps)
    then show ?thesis using Cons.IH [OF Cons.prems] by simp
  next
    case False
    then have np: "\<not> dict_get (capacity_map (view rs)) v 0 \<ge> dict_get dc (fst v) 1"
      by (simp add: view_simps)
    have ok1: "refs_ok N (r_heap (place_ref var v rs)) (r_domains (place_ref var v rs))"
      using Cons.prems by (simp add: place_ref_simps)
    note fs = forward_check_sim [OF ok1, of dc]
    show ?thesis
    proof (cases "forward_check_ref dc (place_ref var v rs)")
      case (Inl e)
      then have p: "forward_check dc (place var v (view rs)) = Inl e" using fs by (simp add: place_ref_simps)
      have "try_values_ref dc pm n var (v # vals) rs = Some (Inl e)" using False Inl by simp
      moreover have "try_values dc pm n var (v # vals) (view rs) = Some (Inl e)" using np p by simp
      ultimately show ?thesis by (simp add: sim_out_Inl)
    next
      case (Inr x)
      obtain rs2 snap f where x: "x = (rs2, snap, f)" by (cases x)
      have rfc: "forward_check_ref dc (place_ref var v rs) = Inr (rs2, snap, f)" using Inr x by simp
      have pfc: "forward_check dc (place var v (view rs)) = Inr (view rs2, snap, f)"
        and ok2: "refs_ok N (r_heap rs2) (r_domains rs2)"
        and tk2: "take N (r_heap rs2) = take N (r_heap rs)"
        using fs rfc by (simp_all add: place_ref_simps)
      note ur = try_values_ref_unfold [OF False rfc, of pm n vals]
      note up = try_values_unfold [OF np pfc, of pm n vals]
      note es = explore_sim [of N dc pm n, OF bt ok2, of f]
      show ?thesis
      proof (cases "explore_ref dc pm n rs2 f")
        case None
        then have "explore dc pm n (view rs2) f = None" using es by (simp add: sim_out_None)
        then show ?thesis unfolding ur up using None by (simp add: sim_out_None)
      next
        case (Some y)
        show ?thesis
        proof (cases y)
          case (Inl e)
          then have "explore dc pm n (view rs2) f = Some (Inl e)" using es Some by (simp add: sim_out_Inl)
          then show ?thesis unfolding ur up using Some Inl by (simp add: sim_out_Inl)
        next
          case (Inr z)
          obtain r2 rs3 where z: "z = (r2, rs3)" by (cases z)
          have er: "explore_ref dc pm n rs2 f = Some (Inr (r2, rs3))" using Some Inr z by simp
          have ep: "explore dc pm n (view rs2) f = Some (Inr (r2, view rs3))"
            and ok3: "refs_ok N (r_heap rs3) (r_domains rs3)"
            and tk3: "take N (r_heap rs3) = take N (r_heap rs2)"
            using es er by (simp_all add: sim_out_Inr)
          show ?thesis
          proof (cases r2)
            case (Some a)
            have "try_values_ref dc pm n var (v # vals) rs = Some (Inr (Some a, rs3))"
              unfolding ur using er Some by simp
            moreover have "try_values dc pm n var (v # vals) (view rs) = Some (Inr (Some a, view rs3))"
              unfolding up using ep Some by simp
            ultimately show ?thesis using ok3 tk3 tk2 by (simp add: sim_out_Inr)
          next
            case None
            note us = undo_sim [OF ok3, of var v snap]
            show ?thesis
            proof (cases "undo_ref var v snap rs3")
              case (Inl e)
              then have "undo var v snap (view rs3) = Inl e" using us by simp
              moreover have "try_values_ref dc pm n var (v # vals) rs = Some (Inl e)"
                unfolding ur using er None Inl by simp
              ultimately show ?thesis unfolding up using ep None by (simp add: sim_out_Inl)
            next
              case (Inr rs4)
              then have pu: "undo var v snap (view rs3) = Inr (view rs4)"
                and ok4: "refs_ok N (r_heap rs4) (r_domains rs4)"
                and tk4: "take N (r_heap rs4) = take N (r_heap rs3)"
                using us by simp_all
              have "sim_out N rs4 (try_values_ref dc pm n var vals rs4)
                  (try_values dc pm n var vals (view rs4))" using Cons.IH [OF ok4] .
              moreover have "take N (r_heap rs4) = take N (r_heap rs)" using tk4 tk3 tk2 by simp
              ultimately have s: "sim_out N rs (try_values_ref dc pm n var vals rs4)
                  (try_values dc pm n var vals (view rs4))"
                by (rule sim_out_trans)
              have "try_values_ref dc pm n var (v # vals) rs = try_values_ref dc pm n var vals rs4"
                unfolding ur using er None Inr by simp
              moreover have "try_values dc pm n var (v # vals) (view rs) =
                  try_values dc pm n var vals (view rs4)"
                unfolding up using ep None pu by simp
              ultimately show ?thesis using s by simp
            qed
          qed
        qed
      qed
    qed
  qed
qed

text \<open>The search over the heap and the search over the lists go step by step together.\<close>

lemma backtrack_sim:
  "refs_ok N (r_heap rs) (r_domains rs) \<Longrightarrow>
   sim_out N rs (backtrack_ref dc pm n rs) (backtrack dc pm n (view rs))"
proof (induction n arbitrary: rs)
  case 0
  then show ?case by (simp add: sim_out_def)
next
  case (Suc n)
  show ?case
  proof (cases "length (r_assigned rs) = length (r_domains rs)")
    case True
    then show ?thesis using Suc.prems by (simp add: sim_out_def view_simps)
  next
    case False
    show ?thesis
    proof (cases "select_unassigned_var (deref_dict (r_heap rs) (r_domains rs)) (r_assigned rs) pm")
      case (Inl e)
      then show ?thesis using False by (simp add: sim_out_def view_simps)
    next
      case (Inr sel)
      show ?thesis
      proof (cases sel)
        case None
        then show ?thesis using False Inr Suc.prems by (simp add: sim_out_def view_simps)
      next
        case (Some var)
        show ?thesis
        proof (cases "dict_index (r_domains rs) var")
          case (Inl e)
          then show ?thesis using False Inr Some
            by (simp add: sim_out_def view_simps dict_index_deref)
        next
          case ix: (Inr a)
          have "sim_out N rs (try_values_ref dc pm n var (sort_key snd (r_heap rs ! a)) rs)
              (try_values dc pm n var (sort_key snd (r_heap rs ! a)) (view rs))"
            using try_values_sim [OF Suc.IH Suc.prems] .
          then show ?thesis using False Inr Some ix by (simp add: view_simps dict_index_deref)
        qed
      qed
    qed
  qed
qed

lemma initial_state_eq: "initial_state doms = \<lparr>domains = doms, assigned = [], capacity_map = []\<rparr>"
  by (simp add: initial_state_def)

lemma deref_append: "deref_dict h (d @ d') = deref_dict h d @ deref_dict h d'"
  by (simp add: deref_dict_def)

lemma copy_loop:
  assumes "take N h1 = h" "N = length h" "refs_ok N h1 d1" "distinct (map fst rest)"
    and "fst ` set d1 \<inter> fst ` set rest = {}" "\<forall>a \<in> snd ` set rest. a < N"
  shows "\<exists>h' d'. foldl (\<lambda>(h', d) (k, a). (h' @ [h' ! a], dict_set d k (length h'))) (h1, d1) rest = (h', d') \<and>
     take N h' = h \<and> refs_ok N h' d' \<and> deref_dict h' d' = deref_dict h1 d1 @ deref_dict h rest"
  using assms
proof (induction rest arbitrary: h1 d1)
  case Nil
  then show ?case by (simp add: deref_dict_def)
next
  case (Cons e rest)
  obtain k a where e: "e = (k, a)" by (cases e)
  have aN: "a < N" using Cons.prems(6) e by simp
  have cell: "h1 ! a = h ! a" using Cons.prems(1) aN by (metis nth_take)
  have knew: "k \<notin> fst ` set d1" using Cons.prems(5) e by auto
  let ?h2 = "h1 @ [h1 ! a]"
  let ?d2 = "dict_set d1 k (length h1)"
  have ok2: "refs_ok N ?h2 ?d2" using refs_ok_bind_new [OF Cons.prems(3)] .
  have tk2: "take N ?h2 = h" using take_bind_new [OF Cons.prems(3)] Cons.prems(1) by simp
  have "k \<notin> fst ` set (deref_dict h1 d1)" using knew by (metis keys_deref set_map)
  then have dd: "deref_dict ?h2 ?d2 = deref_dict h1 d1 @ [(k, h ! a)]"
    using deref_bind_new [OF Cons.prems(3), of "h1 ! a" k] cell by (simp add: keys_dict_set_new)
  have keys2: "fst ` set ?d2 \<inter> fst ` set rest = {}"
    using Cons.prems(4,5) e by (auto simp: dom_dict_set)
  have "distinct (map fst rest)" "\<forall>a \<in> snd ` set rest. a < N" using Cons.prems(4,6) by simp_all
  from Cons.IH [OF tk2 Cons.prems(2) ok2 this(1) keys2 this(2)]
  obtain h' d' where r: "foldl (\<lambda>(h', d) (k, a). (h' @ [h' ! a], dict_set d k (length h'))) (?h2, ?d2) rest = (h', d')"
    "take N h' = h" "refs_ok N h' d'" "deref_dict h' d' = deref_dict ?h2 ?d2 @ deref_dict h rest" by blast
  have "deref_dict h' d' = deref_dict h1 d1 @ deref_dict h (e # rest)"
    using r(4) dd e by (simp add: deref_dict_def)
  then show ?case using r(1,2,3) e by simp
qed

lemma copy_domains_props:
  assumes "distinct (map fst caller)" "\<forall>a \<in> snd ` set caller. a < length h"
  shows "\<exists>h' d'. copy_domains h caller = (h', d') \<and> take (length h) h' = h \<and>
     refs_ok (length h) h' d' \<and> deref_dict h' d' = deref_dict h caller"
proof -
  have "refs_ok (length h) h []" by (simp add: refs_ok_def)
  from copy_loop [OF _ refl this assms(1) _ assms(2)] show ?thesis
    by (simp add: copy_domains_def deref_dict_def)
qed

text \<open>Two keys of the caller share one list; the search copies it twice and changes only
  lists of its own.\<close>

lemma shared_run:
  "map_option (map_sum id (\<lambda>(r, rs). (r, r_heap rs)))
     (backtracking_search_ref shared_heap shared_caller [(1, 1), (2, 1)] []) =
   Some (Inr (None,
     [[(1, ''09:00'')], [(1, ''09:00''), (2, ''09:00'')],
      [(1, ''09:00'')], [(1, ''09:00''), (2, ''09:00'')], [(1, ''09:00''), (1, ''09:00'')],
      [(2, ''09:00''), (1, ''09:00'')]]))"
  by code_simp

section \<open>The search with the plain decrement\<close>

lemma try_values_plain_unfold:
  "\<not> dict_get (capacity_map st) v 0 \<ge> dict_get dc (fst v) 1 \<Longrightarrow>
   forward_check dc (place var v st) = Inr (st2, snap, f) \<Longrightarrow>
   try_values_plain dc pm n var (v # vals) st =
     (case explore_plain dc pm n st2 f of
        None \<Rightarrow> None
      | Some (Inl e) \<Rightarrow> Some (Inl e)
      | Some (Inr (Some result, st3)) \<Rightarrow> Some (Inr (Some result, st3))
      | Some (Inr (None, st3)) \<Rightarrow>
          (case undo_plain var v snap st3 of
             Inl e \<Rightarrow> Some (Inl e)
           | Inr st4 \<Rightarrow> try_values_plain dc pm n var vals st4))"
  by (simp add: explore_plain_def)

lemma undo_plain_present:
  "map_of (capacity_map st) v = Some c \<Longrightarrow> undo_plain var v snap st = undo var v snap st"
  using decrement_present [of "capacity_map st" v c]
  by (simp add: undo_plain_def undo_def split: sum.splits)

lemma try_values_plain_eq:
  assumes bt: "\<And>st. cm_ok (capacity_map st) \<Longrightarrow> backtrack_plain dc pm n st = backtrack dc pm n st"
  shows "cm_ok (capacity_map st) \<Longrightarrow> var \<notin> fst ` set (assigned st) \<Longrightarrow>
     try_values_plain dc pm n var vals st = try_values dc pm n var vals st"
proof (induction vals arbitrary: st)
  case Nil
  then show ?case by simp
next
  case (Cons v vals)
  show ?case
  proof (cases "dict_get (capacity_map st) v 0 \<ge> dict_get dc (fst v) 1")
    case True
    then have "try_values_plain dc pm n var (v # vals) st = try_values_plain dc pm n var vals st"
      "try_values dc pm n var (v # vals) st = try_values dc pm n var vals st" by simp_all
    then show ?thesis using Cons.IH [OF Cons.prems] by simp
  next
    case False
    obtain st2 snap f where fc: "forward_check dc (place var v st) = Inr (st2, snap, f)"
      using forward_check_props [of dc "place var v st"] by blast
    note fr = forward_check_frame [OF fc]
    have c2: "capacity_map st2 = dict_set (capacity_map st) v (dict_get (capacity_map st) v 0 + 1)"
      and a2: "assigned st2 = dict_set (assigned st) var v"
      using fr by (simp_all add: place_simps)
    have ok2: "cm_ok (capacity_map st2)" using c2 Cons.prems(1) by (simp add: cm_ok_place)
    have ex: "explore_plain dc pm n st2 f = explore dc pm n st2 f"
      using bt [OF ok2] by (simp add: explore_plain_def explore_def)
    note up = try_values_plain_unfold [OF False fc, of pm n vals]
    note us = try_values_unfold [OF False fc, of pm n vals]
    show ?thesis
    proof (cases "explore dc pm n st2 f")
      case None
      then show ?thesis unfolding up us ex by simp
    next
      case (Some y)
      show ?thesis
      proof (cases y)
        case (Inl e)
        then show ?thesis unfolding up us ex using Some by simp
      next
        case (Inr z)
        obtain r2 st3 where z: "z = (r2, st3)" by (cases z)
        have e: "explore dc pm n st2 f = Some (Inr (r2, st3))" using Some Inr z by simp
        show ?thesis
        proof (cases r2)
          case (Some a)
          then show ?thesis unfolding up us ex using e by simp
        next
          case None
          from explore_frame [OF ok2 e] None
          have c3: "capacity_map st3 = capacity_map st2" and a3: "assigned st3 = assigned st2"
            and k3: "map fst (domains st3) = map fst (domains st2)"
            by (simp_all add: frame_ok_def)
          have "map_of (capacity_map st3) v = Some (dict_get (capacity_map st) v 0 + 1)"
            using c3 c2 by (simp add: map_of_dict_set)
          then have u: "undo_plain var v snap st3 = undo var v snap st3" by (rule undo_plain_present)
          have "fst ` set snap \<subseteq> fst ` set (domains st3)"
            using fr k3 by (metis place_simps(3) set_map)
          from undo_props [OF _ Cons.prems(2) _ Cons.prems(1) this, of v] a3 a2 c3 c2
          obtain st4 where u4: "undo var v snap st3 = Inr st4" and a4: "assigned st4 = assigned st"
            and c4: "capacity_map st4 = capacity_map st" by auto
          have "try_values_plain dc pm n var vals st4 = try_values dc pm n var vals st4"
            using Cons.IH [of st4] a4 c4 Cons.prems by simp
          then show ?thesis unfolding up us ex using e None u u4 by simp
        qed
      qed
    qed
  qed
qed

lemma backtrack_plain_eq:
  "cm_ok (capacity_map st) \<Longrightarrow> backtrack_plain dc pm n st = backtrack dc pm n st"
proof (induction n arbitrary: st)
  case 0
  then show ?case by simp
next
  case (Suc n)
  show ?case
  proof (cases "length (assigned st) = length (domains st)")
    case True
    then show ?thesis by simp
  next
    case False
    obtain sel where sel: "select_unassigned_var (domains st) (assigned st) pm = Inr sel"
      using select_unassigned_var_total by blast
    show ?thesis
    proof (cases sel)
      case None
      then show ?thesis using False sel by simp
    next
      case (Some var)
      then have fresh: "var \<notin> fst ` set (assigned st)" using select_unassigned_var_fresh sel by blast
      show ?thesis
      proof (cases "dict_index (domains st) var")
        case (Inl e)
        then show ?thesis using False sel Some by simp
      next
        case (Inr dvals)
        have "try_values_plain dc pm n var (sort_key snd dvals) st =
            try_values dc pm n var (sort_key snd dvals) st"
          using try_values_plain_eq [OF Suc.IH Suc.prems fresh] .
        then show ?thesis using False sel Some Inr by simp
      qed
    qed
  qed
qed

text \<open>The fallback of the decrement is never used: reading the count by subscript gives the
  same search.\<close>

lemma backtracking_search_plain_eq:
  "backtracking_search_plain doms dc pm = backtracking_search doms dc pm"
proof -
  have "cm_ok (capacity_map (initial_state doms))" by (simp add: initial_state_simps cm_ok_def)
  from backtrack_plain_eq [OF this, of dc pm "Suc (length doms)"] show ?thesis
    by (simp only: backtracking_search_plain_def backtracking_search_def backtracking_search_run_def)
qed

section \<open>The claims\<close>

text \<open>
  C1.  In an assignment that \<open>backtracking_search\<close> returns, the number of patients mapped
  to a pair \<open>(doctor, slot)\<close> is at most the capacity of that doctor, read from
  \<open>doctor_capacity\<close> with the default 1.  Capacities are not negative, as the data model
  has them.
\<close>

theorem success_respects_capacity:
  "backtracking_search doms dc pm = Some (Inr (Some asg)) \<Longrightarrow> 0 \<le> dict_get dc d 1 \<Longrightarrow>
   int (patients_at asg (d, s)) \<le> dict_get dc d 1"
proof -
  assume "backtracking_search doms dc pm = Some (Inr (Some asg))" and nn: "0 \<le> dict_get dc d 1"
  then obtain st' where "backtracking_search_run doms dc pm = Some (Inr (Some asg, st'))"
    using backtracking_search_Some by blast
  from run_success_capacity [OF this]
  have "0 < patients_at asg (d, s) \<longrightarrow> int (patients_at asg (d, s)) \<le> dict_get dc (fst (d, s)) 1"
    by blast
  then show ?thesis using nn by (cases "patients_at asg (d, s)") auto
qed

theorem success_respects_capacity_witness:
  "backtracking_search [(1, [(1, ''09:00'')]), (2, [(1, ''09:00'')])] [(1, 2)] [] =
     Some (Inr (Some [(1, (1, ''09:00'')), (2, (1, ''09:00''))])) \<and>
   (0 :: int) \<le> dict_get [(1 :: int, 2)] 1 1 \<and>
   int (patients_at [(1, (1, ''09:00'')), (2, (1, ''09:00''))] (1, ''09:00'')) \<le> dict_get [(1 :: int, 2)] 1 1"
proof -
  have e: "backtracking_search [(1, [(1, ''09:00'')]), (2, [(1, ''09:00'')])] [(1, 2)] [] =
     Some (Inr (Some [(1, (1, ''09:00'')), (2, (1, ''09:00''))]))"
    by code_simp
  have c: "(0 :: int) \<le> dict_get [(1 :: int, 2)] 1 1" by (simp add: dict_get_def)
  from success_respects_capacity [OF e c, of "''09:00''"] e c show ?thesis by simp
qed

text \<open>
  C2.  Let the domains be those \<open>build_domains\<close> makes for patients with distinct
  identifiers.  In an assignment that \<open>backtracking_search\<close> returns, every patient has a value;
  a patient whose specialist flag is set and whose required specialty is present is with a
  doctor whose specialty equals the requirement once both are lower-cased; and a patient
  whose list of preferred slots is not empty has one of these slots.
\<close>

theorem success_respects_patient_constraints:
  assumes ids: "distinct (map p_id patients)"
    and run: "backtracking_search (build_domains patients doctors slots) dc pm = Some (Inr (Some asg))"
    and p: "p \<in> set patients"
  shows "\<exists>doc slot. map_of asg (p_id p) = Some (doc, slot) \<and>
     (\<forall>req. needs_specialist p \<noteq> 0 \<and> specialty_required p = Some req \<and> req \<noteq> [] \<longrightarrow>
        (\<exists>d \<in> set doctors. d_id d = doc \<and> (\<exists>sp. specialty d = Some sp \<and> lower sp = lower req)) \<and>
        (distinct (map d_id doctors) \<longrightarrow>
           (\<forall>d \<in> set doctors. d_id d = doc \<longrightarrow> (\<exists>sp. specialty d = Some sp \<and> lower sp = lower req)))) \<and>
     (pref_list_of p \<noteq> [] \<longrightarrow> slot \<in> set (pref_list_of p))"
proof -
  let ?doms = "build_domains patients doctors slots"
  obtain st' where r: "backtracking_search_run ?doms dc pm = Some (Inr (Some asg, st'))"
    using backtracking_search_Some [OF run] by blast
  have "p_id p \<in> fst ` set ?doms"
    using build_domains_lookup [OF ids p, of doctors slots] by (metis domI dom_map_of_conv_image_fst)
  then have "p_id p \<in> fst ` set asg" using run_success_keys [OF r] by (metis set_map)
  then obtain v where v: "map_of asg (p_id p) = Some v"
    by (metis domD dom_map_of_conv_image_fst)
  obtain doc slot where ds: "v = (doc, slot)" by (cases v)
  have "(p_id p, v) \<in> set asg" using v by (rule map_of_SomeD)
  moreover note run_sat [OF build_domains_sat [OF ids] r]
  ultimately have "(doc, slot) \<in> set (allowed_values p doctors slots)"
    using p ds unfolding asg_sat_def by blast
  then have ex: "\<exists>d \<in> set doctors. \<not> doctor_skipped p d \<and> d_id d = doc"
    and pref: "pref_list_of p = [] \<or> slot \<in> set (pref_list_of p)"
    by (simp_all add: allowed_values_iff)
  have "(\<exists>d \<in> set doctors. d_id d = doc \<and> (\<exists>sp. specialty d = Some sp \<and> lower sp = lower req)) \<and>
        (distinct (map d_id doctors) \<longrightarrow>
           (\<forall>d \<in> set doctors. d_id d = doc \<longrightarrow> (\<exists>sp. specialty d = Some sp \<and> lower sp = lower req)))"
    if req: "needs_specialist p \<noteq> 0" "specialty_required p = Some req" "req \<noteq> []" for req
  proof -
    from ex obtain d where d: "d \<in> set doctors" "\<not> doctor_skipped p d" "d_id d = doc" by blast
    then have m: "\<exists>sp. specialty d = Some sp \<and> lower sp = lower req"
      using doctor_skipped_specialist [OF req, of d] by blast
    have "d' = d" if "distinct (map d_id doctors)" "d' \<in> set doctors" "d_id d' = doc" for d'
      using distinct_map_eq [OF that(1,2) d(1)] that(3) d(3) by simp
    then show ?thesis using d m by blast
  qed
  then show ?thesis using v ds pref by blast
qed

theorem success_respects_patient_constraints_witness:
  "distinct (map p_id example_patients) \<and>
   backtracking_search (build_domains example_patients example_doctors [''09:00'', ''09:30''])
       [(1, 1), (2, 2)] example_meta =
     Some (Inr (Some [(2, (1, ''09:00'')), (1, (1, ''09:30''))])) \<and>
   example_patient \<in> set example_patients \<and>
   (\<exists>doc slot. map_of [(2, (1, ''09:00'')), (1, (1, ''09:30''))] (p_id example_patient) = Some (doc, slot) \<and>
     (\<forall>req. needs_specialist example_patient \<noteq> 0 \<and> specialty_required example_patient = Some req \<and> req \<noteq> [] \<longrightarrow>
        (\<exists>d \<in> set example_doctors. d_id d = doc \<and> (\<exists>sp. specialty d = Some sp \<and> lower sp = lower req)) \<and>
        (distinct (map d_id example_doctors) \<longrightarrow>
           (\<forall>d \<in> set example_doctors. d_id d = doc \<longrightarrow> (\<exists>sp. specialty d = Some sp \<and> lower sp = lower req)))) \<and>
     (pref_list_of example_patient \<noteq> [] \<longrightarrow> slot \<in> set (pref_list_of example_patient)))"
proof -
  have ids: "distinct (map p_id example_patients)" by code_simp
  have run: "backtracking_search (build_domains example_patients example_doctors [''09:00'', ''09:30''])
       [(1, 1), (2, 2)] example_meta =
     Some (Inr (Some [(2, (1, ''09:00'')), (1, (1, ''09:30''))]))" by code_simp
  have mem: "example_patient \<in> set example_patients" by (simp add: example_patients_def)
  from success_respects_patient_constraints [OF ids run mem] ids run mem show ?thesis by blast
qed

text \<open>
  C3.  An assignment that \<open>backtracking_search\<close> returns has every key of \<open>domains\<close> as a
  key, each once, and no other key.
\<close>

theorem success_covers_every_patient:
  "backtracking_search doms dc pm = Some (Inr (Some asg)) \<Longrightarrow>
   distinct (map fst asg) \<and> set (map fst asg) = set (map fst doms) \<and> length asg = length doms"
  using backtracking_search_Some [of doms dc pm "Some asg"] run_success_keys by blast

theorem success_covers_every_patient_witness:
  "backtracking_search
     [(1, [(1, ''09:00''), (1, ''09:30'')]), (2, [(1, ''09:00'')])] [(1, 1)] [] =
   Some (Inr (Some [(2, (1, ''09:00'')), (1, (1, ''09:30''))])) \<and>
   distinct (map fst [(2 :: int, (1 :: int, ''09:00'')), (1, (1, ''09:30''))]) \<and>
   set (map fst [(2 :: int, (1 :: int, ''09:00'')), (1, (1, ''09:30''))]) =
     set (map fst [(1 :: int, [(1 :: int, ''09:00''), (1, ''09:30'')]), (2, [(1, ''09:00'')])])"
proof -
  have e: "backtracking_search
     [(1, [(1, ''09:00''), (1, ''09:30'')]), (2, [(1, ''09:00'')])] [(1, 1)] [] =
   Some (Inr (Some [(2, (1, ''09:00'')), (1, (1, ''09:30''))]))"
    by code_simp
  from success_covers_every_patient [OF e] e show ?thesis by simp
qed

text \<open>
  C4.  When the domain of some patient is empty, as \<open>build_domains\<close> leaves it when none of
  the preferred slots is a slot of the day, \<open>backtracking_search\<close> returns \<open>None\<close>: it neither
  raises nor returns a mapping.  The first call of \<open>backtrack\<close> fails by itself, with fuel
  for no recursive call.
\<close>

theorem empty_domain_fails_at_once:
  assumes "map_of doms q = Some []"
  shows "backtracking_search doms dc pm = Some (Inr None) \<and>
     (\<exists>st'. backtrack dc pm (Suc 0) (initial_state doms) = Some (Inr (None, st')))"
proof -
  have ne: "length (assigned (initial_state doms)) \<noteq> length (domains (initial_state doms))"
    using assms by (auto simp: initial_state_simps)
  have c: "cm_ok (capacity_map (initial_state doms))" by (simp add: initial_state_simps cm_ok_def)
  have d: "map_of (domains (initial_state doms)) q = Some []" using assms by (simp add: initial_state_simps)
  have a: "q \<notin> fst ` set (assigned (initial_state doms))" by (simp add: initial_state_simps)
  from backtrack_empty_domain [OF c d a ne, of dc pm "length doms"]
  have "backtracking_search doms dc pm = Some (Inr None)"
    by (auto simp: backtracking_search_def backtracking_search_run_def)
  then show ?thesis using backtrack_empty_domain [OF c d a ne, of dc pm 0] by blast
qed

theorem empty_domain_fails_at_once_witness:
  "map_of (build_domains (example_patients @ [late_patient]) example_doctors [''09:00'', ''09:30'']) 3 = Some [] \<and>
   backtracking_search (build_domains (example_patients @ [late_patient]) example_doctors [''09:00'', ''09:30''])
     [(1, 1), (2, 2)] example_meta = Some (Inr None)"
proof -
  have e: "map_of (build_domains (example_patients @ [late_patient]) example_doctors [''09:00'', ''09:30'']) 3 = Some []"
    by code_simp
  from empty_domain_fails_at_once [OF e] e show ?thesis by blast
qed

text \<open>
  C5, as amended.  Take a placement of the search: forward checking, then the recursive
  call when forward checking did not fail, then, no schedule having been found, the undo.
  Forward checking only shrinks a domain: it leaves it as it was or removes the saturated
  pairs from it.  The failed call leaves in every domain the set of pairs it found there,
  and after the undo every domain holds the set of pairs it held before the placement.
  For every patient but the one at whose non-empty domain forward checking broke off, the
  undo leaves the domain as the call left it or appends the removed pairs to it and sorts
  it by slot, stably; where the call left the pairs with their multiplicities, the domain
  has the pairs with the multiplicities it had before the placement; and where the call
  left the very list, the domain is the list it was before the placement when nothing had
  been removed from it, and otherwise the kept pairs followed by the removed ones, sorted
  stably by slot, which need not be the order it had.
\<close>

theorem undo_after_forward_check:
  assumes ok: "cm_ok (capacity_map st)"
    and d: "distinct (map fst (domains st))"
    and fc: "forward_check dc (place var v st) = Inr (st2, snap, failure)"
    and ex: "(if \<not> failure then backtrack dc pm n st2 else Some (Inr (None, st2))) = Some (Inr (None, st3))"
    and u: "undo var v snap st3 = Inr st4"
    and k: "map_of (domains st) k = Some vs"
  shows "\<exists>vs2 vs3 vs4.
     map_of (domains st2) k = Some vs2 \<and> map_of (domains st3) k = Some vs3 \<and>
     map_of (domains st4) k = Some vs4 \<and>
     (vs2 = vs \<or> vs2 = filter (\<lambda>x. \<not> saturated dc (capacity_map (place var v st)) x) vs) \<and>
     set vs3 = set vs2 \<and> set vs4 = set vs \<and>
     (map_of snap k = None \<or> filter (\<lambda>x. \<not> saturated dc (capacity_map (place var v st)) x) vs \<noteq> [] \<or> vs = [] \<longrightarrow>
        (vs4 = vs3 \<or> vs4 = sort_key snd (vs3 @ filter (saturated dc (capacity_map (place var v st))) vs)) \<and>
        (mset vs3 = mset vs2 \<longrightarrow> mset vs4 = mset vs) \<and>
        (vs3 = vs2 \<longrightarrow>
           vs4 = vs \<or>
           filter (saturated dc (capacity_map (place var v st))) vs \<noteq> [] \<and>
           vs4 = sort_key snd (filter (\<lambda>x. \<not> saturated dc (capacity_map (place var v st)) x) vs @
                                filter (saturated dc (capacity_map (place var v st))) vs)))"
proof -
  note fr = forward_check_frame [OF fc]
  have ok2: "cm_ok (capacity_map st2)" using fr ok by (simp add: place_simps cm_ok_place)
  have d2: "distinct (map fst (domains st2))" using fr d by (simp add: place_simps)
  from ex have ex': "explore dc pm n st2 failure = Some (Inr (None, st3))"
    by (simp only: explore_def)
  have rec: "same_elems (domains st2) (domains st3)"
    by (rule explore_keeps_elems [of dc pm n, OF backtrack_keeps_elems ok2 d2 ex'])
  have "map fst (domains st3) = map fst (domains st)"
    using explore_frame [OF ok2 ex'] fr by (simp add: frame_ok_def place_simps)
  from keys_lookup [OF this k] obtain vs3 where k3: "map_of (domains st3) k = Some vs3"
    by (elim exE)
  from undo_entry [OF fc u d k k3] obtain vs2 vs4 where
    e1: "map_of (domains st2) k = Some vs2" and e2: "map_of (domains st4) k = Some vs4"
    and e3: "vs2 = vs \<or> vs2 = filter (\<lambda>x. \<not> saturated dc (capacity_map (place var v st)) x) vs"
    and e4: "vs4 = vs3 \<or> vs4 = sort_key snd (vs3 @ filter (saturated dc (capacity_map (place var v st))) vs)"
    and e5: "set vs3 = set vs2 \<longrightarrow> set vs4 = set vs"
    and e6: "map_of snap k = None \<or> filter (\<lambda>x. \<not> saturated dc (capacity_map (place var v st)) x) vs \<noteq> [] \<or> vs = [] \<longrightarrow>
        (mset vs3 = mset vs2 \<longrightarrow> mset vs4 = mset vs) \<and>
        (vs3 = vs2 \<longrightarrow>
           vs4 = vs \<or>
           filter (saturated dc (capacity_map (place var v st))) vs \<noteq> [] \<and>
           vs4 = sort_key snd (filter (\<lambda>x. \<not> saturated dc (capacity_map (place var v st)) x) vs @
                                filter (saturated dc (capacity_map (place var v st))) vs))"
    by (elim exE conjE)
  from same_elemsD [OF rec e1] obtain vs' where v1: "map_of (domains st3) k = Some vs'"
    and v2: "set vs' = set vs2" by (elim exE conjE)
  from v1 k3 have "vs' = vs3" by simp
  with v2 have s3: "set vs3 = set vs2" by simp
  with e5 have s4: "set vs4 = set vs" by (rule mp)
  have rest: "map_of snap k = None \<or> filter (\<lambda>x. \<not> saturated dc (capacity_map (place var v st)) x) vs \<noteq> [] \<or> vs = [] \<longrightarrow>
        (vs4 = vs3 \<or> vs4 = sort_key snd (vs3 @ filter (saturated dc (capacity_map (place var v st))) vs)) \<and>
        (mset vs3 = mset vs2 \<longrightarrow> mset vs4 = mset vs) \<and>
        (vs3 = vs2 \<longrightarrow>
           vs4 = vs \<or>
           filter (saturated dc (capacity_map (place var v st))) vs \<noteq> [] \<and>
           vs4 = sort_key snd (filter (\<lambda>x. \<not> saturated dc (capacity_map (place var v st)) x) vs @
                                filter (saturated dc (capacity_map (place var v st))) vs))"
  proof (rule impI, rule conjI)
    show "vs4 = vs3 \<or> vs4 = sort_key snd (vs3 @ filter (saturated dc (capacity_map (place var v st))) vs)"
      by (rule e4)
  next
    assume "map_of snap k = None \<or> filter (\<lambda>x. \<not> saturated dc (capacity_map (place var v st)) x) vs \<noteq> [] \<or> vs = []"
    with e6 show "(mset vs3 = mset vs2 \<longrightarrow> mset vs4 = mset vs) \<and>
        (vs3 = vs2 \<longrightarrow>
           vs4 = vs \<or>
           filter (saturated dc (capacity_map (place var v st))) vs \<noteq> [] \<and>
           vs4 = sort_key snd (filter (\<lambda>x. \<not> saturated dc (capacity_map (place var v st)) x) vs @
                                filter (saturated dc (capacity_map (place var v st))) vs))"
      by (rule mp)
  qed
  from e1 k3 e2 e3 s3 s4 rest show ?thesis by (intro exI conjI)
qed

text \<open>
  The order before the placement is not restored: the two candidates of patient 2 share a
  slot and come back swapped.
\<close>

theorem undo_reorders_domain:
  "forward_check [(1, 1), (2, 1)] (place 1 (1, ''09:00'') (initial_state reordered_domains)) =
     Inr (reordered_placed, [(2, [(1, ''09:00'')]), (3, [])], True) \<and>
   undo 1 (1, ''09:00'') [(2, [(1, ''09:00'')]), (3, [])] reordered_placed = Inr reordered_undone \<and>
   map_of (domains (initial_state reordered_domains)) 2 = Some [(1, ''09:00''), (2, ''09:00'')] \<and>
   map_of (domains reordered_undone) 2 = Some [(2, ''09:00''), (1, ''09:00'')] \<and>
   domains reordered_undone \<noteq> domains (initial_state reordered_domains)"
  by code_simp

theorem undo_after_forward_check_witness:
  "cm_ok (capacity_map (initial_state queue_domains)) \<and>
   distinct (map fst (domains (initial_state queue_domains))) \<and>
   forward_check [(1, 1), (2, 1)] (place 1 (1, ''09:00'') (initial_state queue_domains)) =
     Inr (queue_placed, [(2, [(1, ''09:00'')]), (3, []), (4, [])], False) \<and>
   backtrack [(1, 1), (2, 1)] [] 3 queue_placed = Some (Inr (None, queue_failed)) \<and>
   undo 1 (1, ''09:00'') [(2, [(1, ''09:00'')]), (3, []), (4, [])] queue_failed = Inr queue_undone \<and>
   map_of (domains (initial_state queue_domains)) 2 = Some [(1, ''09:00''), (2, ''09:00'')] \<and>
   map_of (domains queue_placed) 2 = Some [(2, ''09:00'')] \<and>
   map_of (domains queue_failed) 2 = Some [(2, ''09:00'')] \<and>
   (\<exists>vs4. map_of (domains queue_undone) 2 = Some vs4 \<and>
      set vs4 = {(1 :: int, ''09:00''), (2, ''09:00'')} \<and>
      mset vs4 = mset [(1 :: int, ''09:00''), (2, ''09:00'')] \<and>
      vs4 = sort_key snd [(2 :: int, ''09:00''), (1, ''09:00'')])"
proof -
  have h1: "cm_ok (capacity_map (initial_state queue_domains))" by code_simp
  have h2: "distinct (map fst (domains (initial_state queue_domains)))" by code_simp
  have h3: "forward_check [(1, 1), (2, 1)] (place 1 (1, ''09:00'') (initial_state queue_domains)) =
     Inr (queue_placed, [(2, [(1, ''09:00'')]), (3, []), (4, [])], False)" by code_simp
  have h4: "backtrack [(1, 1), (2, 1)] [] 3 queue_placed = Some (Inr (None, queue_failed))"
    by code_simp
  then have h4': "(if \<not> False then backtrack [(1, 1), (2, 1)] [] 3 queue_placed
      else Some (Inr (None, queue_placed))) = Some (Inr (None, queue_failed))" by simp
  have h5: "undo 1 (1, ''09:00'') [(2, [(1, ''09:00'')]), (3, []), (4, [])] queue_failed = Inr queue_undone"
    by code_simp
  have h6: "map_of (domains (initial_state queue_domains)) 2 = Some [(1, ''09:00''), (2, ''09:00'')]"
    by code_simp
  have k2: "map_of (domains queue_placed) 2 = Some [(2, ''09:00'')]" by code_simp
  have k3: "map_of (domains queue_failed) 2 = Some [(2, ''09:00'')]" by code_simp
  have keep: "filter (\<lambda>x. \<not> saturated [(1, 1), (2, 1)]
      (capacity_map (place 1 (1, ''09:00'') (initial_state queue_domains))) x)
      [(1, ''09:00''), (2, ''09:00'')] = [(2, ''09:00'')]" by code_simp
  have gone: "filter (saturated [(1, 1), (2, 1)]
      (capacity_map (place 1 (1, ''09:00'') (initial_state queue_domains))))
      [(1, ''09:00''), (2, ''09:00'')] = [(1, ''09:00'')]" by code_simp
  from undo_after_forward_check [OF h1 h2 h3 h4' h5 h6]
  have "\<exists>vs4. map_of (domains queue_undone) 2 = Some vs4 \<and>
      set vs4 = {(1 :: int, ''09:00''), (2, ''09:00'')} \<and>
      mset vs4 = mset [(1 :: int, ''09:00''), (2, ''09:00'')] \<and>
      vs4 = sort_key snd [(2 :: int, ''09:00''), (1, ''09:00'')]"
    unfolding keep gone k2 k3 by auto
  with h1 h2 h3 h4 h5 h6 k2 k3 show ?thesis by (intro conjI)
qed

text \<open>
  C6.  \<open>select_unassigned_var\<close> takes as its pool the unassigned emergency patients when
  there is one and all unassigned patients otherwise; it returns the first patient of the
  pool, in the iteration order of \<open>domains\<close>, whose domain is the smallest; and it returns
  \<open>None\<close> exactly when no patient is unassigned.  It never raises.
\<close>

theorem select_unassigned_var_policy:
  "let unassigned = filter (\<lambda>vid. vid \<notin> fst ` set asg) (map fst doms);
       emergencies = filter (is_emergency pm) unassigned;
       pool = (if emergencies = [] then unassigned else emergencies)
   in (select_unassigned_var doms asg pm = Inr None \<longleftrightarrow> unassigned = []) \<and>
      (unassigned \<noteq> [] \<longrightarrow>
         (\<exists>w. select_unassigned_var doms asg pm = Inr (Some w) \<and> first_min doms pool w))"
proof -
  have u: "filter (\<lambda>vid. vid \<notin> fst ` set asg) (map fst doms) = unassigned_of doms asg"
    by (simp add: unassigned_of_def dict_mem_iff)
  have p: "(if filter (is_emergency pm) (unassigned_of doms asg) = [] then unassigned_of doms asg
            else filter (is_emergency pm) (unassigned_of doms asg)) = pool_of doms asg pm"
    by (simp add: pool_of_def Let_def)
  have "(select_unassigned_var doms asg pm = Inr None \<longleftrightarrow> unassigned_of doms asg = []) \<and>
      (unassigned_of doms asg \<noteq> [] \<longrightarrow>
         (\<exists>w. select_unassigned_var doms asg pm = Inr (Some w) \<and> first_min doms (pool_of doms asg pm) w))"
    using select_unassigned_var_None [of doms asg pm] select_unassigned_var_Some [of doms asg pm]
    by (cases "unassigned_of doms asg = []") auto
  then show ?thesis unfolding Let_def u p .
qed

theorem select_unassigned_var_policy_witness:
  "select_unassigned_var
     [(1, [(1, ''09:00''), (1, ''09:30'')]), (2, [(1, ''09:00'')]), (3, [(1, ''09:30'')]), (4, [])]
     [(4, (1, ''10:00''))]
     [(1, \<lparr>m_emergency = Some 0, m_name = ''A''\<rparr>), (2, \<lparr>m_emergency = None, m_name = ''B''\<rparr>)] = Inr (Some 2) \<and>
   first_min
     [(1, [(1, ''09:00''), (1, ''09:30'')]), (2, [(1, ''09:00'')]), (3, [(1, ''09:30'')]), (4, [])]
     [1, 2, 3] 2"
  using select_unassigned_var_policy
    [of "[(4, (1, ''10:00''))]"
        "[(1, [(1, ''09:00''), (1, ''09:30'')]), (2, [(1, ''09:00'')]), (3, [(1, ''09:30'')]), (4, [])]"
        "[(1, \<lparr>m_emergency = Some 0, m_name = ''A''\<rparr>), (2, \<lparr>m_emergency = None, m_name = ''B''\<rparr>)]"]
  by (simp add: Let_def is_emergency_def select_unassigned_var_def pool_of_def unassigned_of_def
      dict_mem_def dict_index_def)

text \<open>
  C7.  One doctor of capacity 1 without a specialty, one patient without emergency,
  specialty or preferred slots, and two slots: the search succeeds and gives the patient the
  earlier of the two slots with that doctor, in whichever order the slots are listed.
\<close>

theorem single_patient_gets_earliest_slot:
  assumes "specialty d = None" "capacity_per_slot d = 1"
    and "needs_specialist p = 0" "specialty_required p = None" "emergency p = 0" "preferred_slots p = None"
  shows "schedule_search [p] [d] [s1, s2] = Some (Inr (Some [(p_id p, (d_id d, min s1 s2))]))"
  using assms
  by (simp add: schedule_search_def doctor_capacity_of_def patient_meta_of_def dict_set_def
      build_domains_single search_single)

theorem single_patient_gets_earliest_slot_witness:
  "specialty solo_doctor = None \<and> capacity_per_slot solo_doctor = 1 \<and>
   needs_specialist solo_patient = 0 \<and> specialty_required solo_patient = None \<and>
   emergency solo_patient = 0 \<and> preferred_slots solo_patient = None \<and>
   schedule_search [solo_patient] [solo_doctor] [''09:30'', ''09:00''] = Some (Inr (Some [(4, (7, ''09:00''))]))"
proof -
  have h: "specialty solo_doctor = None" "capacity_per_slot solo_doctor = 1"
    "needs_specialist solo_patient = 0" "specialty_required solo_patient = None"
    "emergency solo_patient = 0" "preferred_slots solo_patient = None"
    by (simp_all add: solo_doctor_def solo_patient_def)
  have m: "min ''09:30'' ''09:00'' = ''09:00''" by code_simp
  from single_patient_gets_earliest_slot [OF h, of "''09:30''" "''09:00''"] h m show ?thesis
    by (simp add: solo_doctor_def solo_patient_def)
qed

text \<open>
  C8.  Take any state in which every count of the capacity map is positive, as in the
  initial state and, by this theorem and \<open>backtrack_frame\<close>, in every state the search passes
  through.  When a placement of \<open>v\<close> is undone, after failed forward checking or a failed
  recursive call, the key \<open>v\<close> is in the capacity map with a positive count; the decrement
  with its fallback is the plain decrement of a present key; it gives back the map from
  before the placement; and all counts stay positive.  Hence the search whose undo step
  reads the count by subscript, and would raise on a missing key, returns on every input
  what \<open>backtracking_search\<close> returns.
\<close>

theorem undo_decrement_finds_key:
  assumes "cm_ok (capacity_map st)"
    and "forward_check dc (place var v st) = Inr (st2, snap, failure)"
    and "(if \<not> failure then backtrack dc pm n st2 else Some (Inr (None, st2))) = Some (Inr (None, st3))"
  shows "(\<exists>c. map_of (capacity_map st3) v = Some c \<and> 0 < c) \<and>
     decrement_plain (capacity_map st3) v = Some (decrement (capacity_map st3) v) \<and>
     decrement (capacity_map st3) v = capacity_map st \<and>
     cm_ok (capacity_map st2) \<and> cm_ok (capacity_map st3) \<and> cm_ok (decrement (capacity_map st3) v) \<and>
     backtracking_search_plain doms dc pm = backtracking_search doms dc pm"
proof -
  note fr = forward_check_frame [OF assms(2)]
  have c2: "capacity_map st2 = dict_set (capacity_map st) v (dict_get (capacity_map st) v 0 + 1)"
    using fr by (simp add: place_simps)
  then have ok2: "cm_ok (capacity_map st2)" using assms(1) by (simp add: cm_ok_place)
  have ex: "explore dc pm n st2 failure = Some (Inr (None, st3))" using assms(3) by (simp add: explore_def)
  from explore_frame [OF ok2 ex] have c3: "capacity_map st3 = capacity_map st2"
    by (simp add: frame_ok_def)
  then have ok3: "cm_ok (capacity_map st3)" using ok2 by simp
  have look: "map_of (capacity_map st3) v = Some (dict_get (capacity_map st) v 0 + 1)"
    using c3 c2 by (simp add: map_of_dict_set)
  have pos: "0 < dict_get (capacity_map st) v 0 + 1" using cm_ok_get [OF assms(1), of v] by simp
  have restored: "decrement (capacity_map st3) v = capacity_map st"
    using c3 c2 decrement_place [OF assms(1), of v] by simp
  show ?thesis
    using look pos decrement_present [OF look] restored ok2 ok3 assms(1)
      backtracking_search_plain_eq [of doms dc pm]
    by simp
qed

theorem undo_decrement_finds_key_witness:
  "cm_ok (capacity_map (initial_state crowded_domains)) \<and>
   forward_check [(1, 1), (2, 1)] (place 1 (1, ''09:00'') (initial_state crowded_domains)) =
     Inr (crowded_placed, [(2, []), (3, [])], False) \<and>
   backtrack [(1, 1), (2, 1)] [] 2 crowded_placed = Some (Inr (None, crowded_failed)) \<and>
   map_of (capacity_map crowded_failed) (1, ''09:00'') = Some 1 \<and>
   decrement_plain (capacity_map crowded_failed) (1, ''09:00'') = Some [] \<and>
   decrement (capacity_map crowded_failed) (1, ''09:00'') = []"
proof -
  have h1: "cm_ok (capacity_map (initial_state crowded_domains))"
    by (simp add: initial_state_simps cm_ok_def)
  have h2: "forward_check [(1, 1), (2, 1)] (place 1 (1, ''09:00'') (initial_state crowded_domains)) =
     Inr (crowded_placed, [(2, []), (3, [])], False)"
    by code_simp
  have h3: "backtrack [(1, 1), (2, 1)] [] 2 crowded_placed = Some (Inr (None, crowded_failed))"
    by code_simp
  then have h3': "(if \<not> False then backtrack [(1, 1), (2, 1)] [] 2 crowded_placed
      else Some (Inr (None, crowded_placed))) = Some (Inr (None, crowded_failed))" by simp
  have m: "map_of (capacity_map crowded_failed) (1, ''09:00'') = Some 1"
    by (simp add: crowded_failed_def)
  from undo_decrement_finds_key [OF h1 h2 h3'] h1 h2 h3 m show ?thesis
    by (simp add: initial_state_simps)
qed

text \<open>
  C9.  Let the caller's dictionary hold references to lists in a heap, any of them shared
  or not.  The call returns, with the result of the search over the lists themselves, and
  leaves every cell the heap had before the call as it was: each list passed in has the same
  pairs in the same order afterwards, whether the search succeeded or failed.  All the lists
  the search changes are lists it made itself.
\<close>

theorem caller_domains_not_mutated:
  assumes "distinct (map fst caller)" and "\<forall>a \<in> snd ` set caller. a < length h"
  shows "\<exists>r rs'. backtracking_search_ref h caller dc pm = Some (Inr (r, rs')) \<and>
     backtracking_search (deref_dict h caller) dc pm = Some (Inr r) \<and>
     take (length h) (r_heap rs') = h \<and>
     deref_dict (r_heap rs') caller = deref_dict h caller"
proof -
  obtain h' d' where c: "copy_domains h caller = (h', d')" and tk: "take (length h) h' = h"
    and ok: "refs_ok (length h) h' d'" and dd: "deref_dict h' d' = deref_dict h caller"
    using copy_domains_props [OF assms] by blast
  let ?rs = "\<lparr>r_heap = h', r_domains = d', r_assigned = [], r_capacity_map = []\<rparr>"
  have len: "length d' = length (deref_dict h caller)" using dd by (metis length_deref)
  have v: "view ?rs = initial_state (deref_dict h caller)"
    by (simp add: view_def dd initial_state_eq)
  have ref_eq: "backtracking_search_ref h caller dc pm = backtrack_ref dc pm (Suc (length d')) ?rs"
    by (simp only: backtracking_search_ref_def c prod.case)
  have run_eq: "backtracking_search_run (deref_dict h caller) dc pm =
      backtrack dc pm (Suc (length d')) (view ?rs)"
    by (simp only: backtracking_search_run_def v len)
  have "refs_ok (length h) (r_heap ?rs) (r_domains ?rs)" using ok by simp
  then have "sim_out (length h) ?rs (backtrack_ref dc pm (Suc (length d')) ?rs)
      (backtrack dc pm (Suc (length d')) (view ?rs))"
    by (rule backtrack_sim)
  then have s: "sim_out (length h) ?rs (backtracking_search_ref h caller dc pm)
      (backtracking_search_run (deref_dict h caller) dc pm)"
    by (simp only: ref_eq run_eq)
  obtain r st' where run: "backtracking_search_run (deref_dict h caller) dc pm = Some (Inr (r, st'))"
    using backtracking_search_run_total by blast
  show ?thesis
  proof (cases "backtracking_search_ref h caller dc pm")
    case None
    then show ?thesis using s run by (simp add: sim_out_None)
  next
    case (Some y)
    show ?thesis
    proof (cases y)
      case (Inl e)
      then show ?thesis using s run Some by (simp add: sim_out_Inl)
    next
      case (Inr z)
      obtain r1 rs' where z: "z = (r1, rs')" by (cases z)
      have f: "Some (Inr (r, st')) = Some (Inr (r1, view rs'))"
        "take (length h) (r_heap rs') = take (length h) h'"
        using s run Some Inr z by (simp_all add: sim_out_Inr)
      then have r1: "r1 = r" by simp
      have heap: "take (length h) (r_heap rs') = h" using f(2) tk by simp
      have "deref_dict (r_heap rs') caller = deref_dict h caller"
      proof (rule deref_cong, rule ballI)
        fix a assume "a \<in> snd ` set caller"
        then have "a < length h" using assms(2) by blast
        then show "r_heap rs' ! a = h ! a" using heap by (metis nth_take)
      qed
      moreover have "backtracking_search (deref_dict h caller) dc pm = Some (Inr r)"
        using run by (simp add: backtracking_search_def)
      ultimately show ?thesis using Some Inr z r1 heap by simp
    qed
  qed
qed

theorem caller_domains_not_mutated_witness:
  "distinct (map fst shared_caller) \<and> map snd shared_caller = [0, 1, 0] \<and> length shared_heap = 2 \<and>
   (\<exists>r rs'. backtracking_search_ref shared_heap shared_caller [(1, 1), (2, 1)] [] = Some (Inr (r, rs')) \<and>
     backtracking_search (deref_dict shared_heap shared_caller) [(1, 1), (2, 1)] [] = Some (Inr r) \<and>
     take (length shared_heap) (r_heap rs') = shared_heap \<and>
     deref_dict (r_heap rs') shared_caller = deref_dict shared_heap shared_caller)"
proof -
  have d: "distinct (map fst shared_caller)" by (simp add: shared_caller_def)
  have a: "\<forall>a \<in> snd ` set shared_caller. a < length shared_heap"
    by (simp add: shared_caller_def shared_heap_def)
  have "map snd shared_caller = [0, 1, 0]" "length shared_heap = 2"
    by (simp_all add: shared_caller_def shared_heap_def)
  with caller_domains_not_mutated [OF d a] d show ?thesis by blast
qed

text \<open>
  C10.  For a patient whose specialist flag is set while the required specialty is \<open>NULL\<close> or
  empty, \<open>build_domains\<close> skips no doctor: the candidates are all doctors at all slots the
  preferred list admits, the same as for the patient with the flag cleared.
\<close>

theorem missing_specialty_skips_filter:
  assumes "needs_specialist p \<noteq> 0"
    and "specialty_required p = None \<or> specialty_required p = Some []"
  shows "(\<forall>d. \<not> doctor_skipped p d) \<and>
     allowed_values p doctors slots =
       concat (map (\<lambda>d. map (\<lambda>slot. (d_id d, slot))
                 (filter (\<lambda>slot. pref_list_of p = [] \<or> slot \<in> set (pref_list_of p)) slots)) doctors) \<and>
     allowed_values p doctors slots = allowed_values (p\<lparr>needs_specialist := 0\<rparr>) doctors slots"
proof -
  have a: "\<not> doctor_skipped p d" for d using doctor_skipped_missing [OF assms(2)] .
  have b: "\<not> doctor_skipped (p\<lparr>needs_specialist := 0\<rparr>) d" for d by (simp add: doctor_skipped_def split: option.splits)
  have "allowed_values p doctors slots =
       concat (map (\<lambda>d. map (\<lambda>slot. (d_id d, slot))
                 (filter (\<lambda>slot. pref_list_of p = [] \<or> slot \<in> set (pref_list_of p)) slots)) doctors)"
    using a by (simp add: allowed_values_def Let_def)
  moreover have "allowed_values (p\<lparr>needs_specialist := 0\<rparr>) doctors slots =
       concat (map (\<lambda>d. map (\<lambda>slot. (d_id d, slot))
                 (filter (\<lambda>slot. pref_list_of p = [] \<or> slot \<in> set (pref_list_of p)) slots)) doctors)"
    using b by (simp add: allowed_values_def Let_def pref_list_of_flag)
  ultimately show ?thesis using a by simp
qed

theorem missing_specialty_skips_filter_witness:
  "needs_specialist unnamed_specialty_patient \<noteq> 0 \<and>
   specialty_required unnamed_specialty_patient = Some [] \<and>
   allowed_values unnamed_specialty_patient example_doctors [''09:00'', ''09:30''] =
     [(1, ''09:30''), (2, ''09:30'')]"
proof -
  have h: "needs_specialist unnamed_specialty_patient \<noteq> 0"
    "specialty_required unnamed_specialty_patient = None \<or> specialty_required unnamed_specialty_patient = Some []"
    by (simp_all add: unnamed_specialty_patient_def)
  have p: "pref_list_of unnamed_specialty_patient = [''09:30'']" by code_simp
  from missing_specialty_skips_filter [OF h, of example_doctors "[''09:00'', ''09:30'']"] h p
  show ?thesis by (simp add: example_doctors_def unnamed_specialty_patient_def)
qed

end
